theory Spec2Isabelle
  imports Main
begin

section \<open>The program\<close>

text \<open>
  The helpers and the three custom elements of the bundle, function by function, with the
  names of the source. The document object model of the host enters as data (elements on
  a heap, the document as the list of its elements) and as parameters (selector matching
  and the text of parsed markup); the events a component dispatches are recorded in
  order. Event listeners are not run: nothing they do feeds back into the functions
  below. The handlers of the sub-navigation for clicks and key presses and the deferral
  of \<open>init\<close> until the document is loaded are left out.
\<close>

subsection \<open>Strings of the host language\<close>

text \<open>
  Strings are lists of characters; a character is read through its code unit
  \<open>of_char c :: nat\<close>, and the character classes of the two regular expressions of
  \<open>setTextAsID\<close> are written on code units, with the bounds of the source. The type
  \<open>char\<close> holds the code units up to 255, so a text here is a text in that range.
  Relational comparison of two strings is the lexicographic comparison of their code
  units.
\<close>

fun str_lt :: "string \<Rightarrow> string \<Rightarrow> bool" where
  "str_lt [] [] = False"
| "str_lt [] (y # ys) = True"
| "str_lt (x # xs) [] = False"
| "str_lt (x # xs) (y # ys) =
     ((of_char x :: nat) < of_char y \<or> (x = y \<and> str_lt xs ys))"

definition str_gt :: "string \<Rightarrow> string \<Rightarrow> bool" where
  "str_gt a b = str_lt b a"

text \<open>The class \<open>\s\<close>: the white space and line terminator code units.\<close>

definition is_space :: "char \<Rightarrow> bool" where
  "is_space c =
     (let n = (of_char c :: nat) in
        n = 0x09 \<or> n = 0x0A \<or> n = 0x0B \<or> n = 0x0C \<or> n = 0x0D \<or> n = 0x20 \<or> n = 0xA0
        \<or> n = 0x1680 \<or> (0x2000 \<le> n \<and> n \<le> 0x200A) \<or> n = 0x2028 \<or> n = 0x2029
        \<or> n = 0x202F \<or> n = 0x205F \<or> n = 0x3000 \<or> n = 0xFEFF)"

text \<open>The class \<open>[a-zA-Z0-9-_\u00A0-\uFFEF\s-]\<close>, whose complement is replaced.\<close>

definition allowed :: "char \<Rightarrow> bool" where
  "allowed c =
     (let n = (of_char c :: nat) in
        (0x61 \<le> n \<and> n \<le> 0x7A) \<or> (0x41 \<le> n \<and> n \<le> 0x5A) \<or> (0x30 \<le> n \<and> n \<le> 0x39)
        \<or> c = CHR ''-'' \<or> c = CHR ''_'' \<or> (0xA0 \<le> n \<and> n \<le> 0xFFEF) \<or> is_space c)"

definition replace_disallowed :: "string \<Rightarrow> string" where
  "replace_disallowed s = map (\<lambda>c. if allowed c then c else CHR ''-'') s"

text \<open>The class \<open>[\s-]\<close>; every maximal run of it becomes one hyphen.\<close>

definition is_sep :: "char \<Rightarrow> bool" where
  "is_sep c = (is_space c \<or> c = CHR ''-'')"

function collapse_runs :: "string \<Rightarrow> string" where
  "collapse_runs [] = []"
| "collapse_runs (c # cs) =
     (if is_sep c then CHR ''-'' # collapse_runs (dropWhile is_sep cs)
      else c # collapse_runs cs)"
  by pat_completeness auto
termination
  by (relation "measure length") (auto simp: length_dropWhile_le less_Suc_eq_le)

definition text_to_id :: "string \<Rightarrow> string" where
  "text_to_id s = collapse_runs (replace_disallowed s)"

text \<open>Decimal rendering of a non-negative counter, as a template literal prints it.\<close>

definition digit_char :: "nat \<Rightarrow> char" where
  "digit_char d = ''0123456789'' ! d"

fun decimal :: "nat \<Rightarrow> string" where
  "decimal n = (if n < 10 then [digit_char n] else decimal (n div 10) @ [digit_char (n mod 10)])"

declare decimal.simps [simp del]

subsection \<open>Elements and the document\<close>

record element =
  tagName :: string
  elem_id :: string
  textContent :: string
  classList :: "string list"
  elem_innerHTML :: string

text \<open>
  Elements are objects referred to by address. The document lists the addresses of its
  elements in document order; the heap gives every address its element, so a node list
  (a list of addresses) always refers to elements.
\<close>

record document =
  nodes :: "nat list"
  heap :: "nat \<Rightarrow> element"

definition ids_of :: "document \<Rightarrow> string list" where
  "ids_of doc = map (\<lambda>a. elem_id (heap doc a)) (nodes doc)"

text \<open>\<open>document.querySelector('#' + s)\<close> is truthy when some element has the identifier.\<close>

definition has_id :: "document \<Rightarrow> string \<Rightarrow> bool" where
  "has_id doc s = (s \<in> set (ids_of doc))"

subsection \<open>The identifier assigner\<close>

text \<open>
  The loop \<open>while (existing) { suffix++; existing = document.querySelector(...) }\<close>:
  the state is the counter and the result of the last query.
\<close>

definition suffixed :: "string \<Rightarrow> nat \<Rightarrow> string" where
  "suffixed ident suffix = ''kelp_'' @ ident @ ''_'' @ decimal suffix"

function probe :: "document \<Rightarrow> string \<Rightarrow> nat \<Rightarrow> bool \<Rightarrow> nat" where
  "probe doc ident suffix existing =
     (if existing then probe doc ident (suffix + 1) (has_id doc (suffixed ident (suffix + 1)))
      else suffix)"
  by pat_completeness auto

text \<open>\<open>setTextAsID(elem)\<close>, on the element at address \<open>a\<close>.\<close>

definition setTextAsID :: "document \<Rightarrow> nat \<Rightarrow> document" where
  "setTextAsID doc a =
     (let elem = heap doc a in
      if elem_id elem \<noteq> [] then doc
      else
        let ident = text_to_id (textContent elem) in
        if ident = [] then doc
        else
          let suffix = probe doc ident 0 (has_id doc (''kelp_'' @ ident)) in
          doc\<lparr>heap := (heap doc)
            (a := elem\<lparr>elem_id :=
               ''kelp_'' @ ident @ (if suffix \<noteq> 0 then ''_'' @ decimal suffix else [])\<rparr>)\<rparr>)"

subsection \<open>The table of contents builder\<close>

text \<open>The private fields of the component that \<open>init\<close> fills from the attributes.\<close>

record config =
  nested :: bool
  level :: string
  heading :: "string option"
  headingType :: string
  target :: string
  listClass :: "string option"
  listType :: string

text \<open>
  The markup that \<open>#createList\<close> returns, as its structure: an optional standalone
  caption element \<open>(tag, text)\<close> before the list, the list element with its tag and
  optional class, and the items of the list. An item is the caption item
  \<open><li><strong>...</strong></li>\<close> or the entry of a heading: the link target,
  the link text, and the nested list when the recursive call made one.
\<close>

datatype markup =
  Markup (standalone: "(string \<times> string) option") (list_tag: string)
         (list_class: "string option") (items: "li list")
and li =
  Caption string
| Entry (href: string) (link_text: string) (sub: "markup option")

text \<open>The shared cursor \<open>this.#index\<close> and the document whose headings get identifiers.\<close>

record builder =
  index :: nat
  page :: document

definition truthy :: "string option \<Rightarrow> bool" where
  "truthy s = (case s of None \<Rightarrow> False | Some t \<Rightarrow> t \<noteq> [])"

text \<open>
  \<open>headings[this.#index + 1]?.tagName.slice(1) || currentLevel\<close>: the level of the next
  heading, or the current level when there is no next heading or its level is empty.
\<close>

definition next_level :: "document \<Rightarrow> nat list \<Rightarrow> nat \<Rightarrow> string \<Rightarrow> string" where
  "next_level doc headings i currentLevel =
     (if i + 1 < length headings then
        (let l = drop 1 (tagName (heap doc (headings ! (i + 1))))
         in if l = [] then currentLevel else l)
      else currentLevel)"

text \<open>The template of the \<open>return\<close> statement of \<open>#createList\<close>.\<close>

definition wrap_list :: "config \<Rightarrow> bool \<Rightarrow> li list \<Rightarrow> markup" where
  "wrap_list cfg isFirst list =
     (let renderHeading = (isFirst \<and> truthy (heading cfg));
          caption = (case heading cfg of None \<Rightarrow> [] | Some h \<Rightarrow> h)
      in Markup
           (if renderHeading \<and> headingType cfg \<noteq> ''li''
            then Some (headingType cfg, caption) else None)
           (listType cfg)
           (if truthy (listClass cfg) then listClass cfg else None)
           ((if renderHeading \<and> headingType cfg = ''li'' then [Caption caption] else [])
            @ list))"

function (domintros)
  createList :: "config \<Rightarrow> nat list \<Rightarrow> bool \<Rightarrow> builder \<Rightarrow> builder \<times> markup" and
  createList_loop ::
    "config \<Rightarrow> nat list \<Rightarrow> bool \<Rightarrow> builder \<Rightarrow> li list \<Rightarrow> builder \<times> li list"
where
  "createList cfg headings isFirst st =
     (let st0 = st\<lparr>index := (if isFirst then 0 else index st + 1)\<rparr>;
          (st1, list) = createList_loop cfg headings isFirst st0 []
      in (st1, wrap_list cfg isFirst list))"
| "createList_loop cfg headings isFirst st list =
     (if index st < length headings then
        (let h = headings ! index st;
             st1 = st\<lparr>page := setTextAsID (page st) h\<rparr>;
             currentLevel = drop 1 (tagName (heap (page st1) h));
             href = elem_id (heap (page st1) h);
             label = textContent (heap (page st1) h);
             (st2, child) =
               (if nested cfg
                   \<and> str_gt (next_level (page st1) headings (index st1) currentLevel) currentLevel
                then (let (s, m) = createList cfg headings False st1 in (s, Some m))
                else (st1, None));
             list' = list @ [Entry href label child]
         in if \<not> isFirst
               \<and> str_lt (next_level (page st2) headings (index st2) currentLevel) currentLevel
            then (st2, list')
            else createList_loop cfg headings isFirst (st2\<lparr>index := index st2 + 1\<rparr>) list')
      else (st, list))"
  by pat_completeness auto

subsection \<open>Markup as text\<close>

text \<open>
  The string that \<open>#createList\<close> returns for a structure: the two templates, with
  their line breaks and tabs.
\<close>

definition nl_tabs :: "nat \<Rightarrow> string" where
  "nl_tabs n = CHR 0x0A # replicate n (CHR 0x09)"

fun caption_part :: "li list \<Rightarrow> string" where
  "caption_part (Caption h # rest) = ''<li><strong>'' @ h @ ''</strong></li>''"
| "caption_part its = []"

fun entries_part :: "li list \<Rightarrow> li list" where
  "entries_part (Caption h # rest) = rest"
| "entries_part its = its"

function html :: "markup \<Rightarrow> string" and html_li :: "li \<Rightarrow> string" where
  \<open>html (Markup s t c its) =
     nl_tabs 3
     @ (case s of None \<Rightarrow> [] | Some (tag, h) \<Rightarrow> ''<'' @ tag @ ''>'' @ h @ ''</'' @ tag @ ''>'')
     @ nl_tabs 3 @ ''<'' @ t @ '' ''
     @ (case c of None \<Rightarrow> [] | Some k \<Rightarrow> ''class="'' @ k @ ''"'') @ ''>''
     @ nl_tabs 4 @ caption_part its
     @ nl_tabs 4 @ concat (map html_li (entries_part its))
     @ nl_tabs 3 @ ''</'' @ t @ ''>''\<close>
| \<open>html_li (Caption h) = ''<li><strong>'' @ h @ ''</strong></li>''\<close>
| \<open>html_li (Entry h t child) =
     ''<li>'' @ nl_tabs 5 @ ''<a class="link-subtle" href="#'' @ h @ ''">'' @ t @ ''</a>''
     @ nl_tabs 5 @ (case child of None \<Rightarrow> [] | Some m \<Rightarrow> html m)
     @ nl_tabs 4 @ ''</li>''\<close>
  by pat_completeness auto

subsection \<open>The components\<close>

text \<open>
  An event that a component dispatches on itself; \<open>debug\<close> and \<open>emit\<close> build
  the events, and a component's state keeps the list of those it has dispatched.
\<close>

record event =
  ev_type :: string
  bubbles :: bool
  cancelable :: bool
  detail :: "string option"

definition debug :: "string \<Rightarrow> event" where
  "debug d = \<lparr>ev_type = ''kelp:debug'', bubbles = True, cancelable = False, detail = Some d\<rparr>"

definition emit :: "string \<Rightarrow> string \<Rightarrow> string option \<Rightarrow> bool \<Rightarrow> event" where
  "emit component ident d c =
     \<lparr>ev_type = ''kelp-'' @ component @ '':'' @ ident, bubbles = True, cancelable = c, detail = d\<rparr>"

definition hasAttribute :: "(string \<rightharpoonup> string) \<Rightarrow> string \<Rightarrow> bool" where
  "hasAttribute attrs n = (attrs n \<noteq> None)"

definition attr_or :: "(string \<rightharpoonup> string) \<Rightarrow> string \<Rightarrow> string \<Rightarrow> string" where
  "attr_or attrs n d = (case attrs n of None \<Rightarrow> d | Some v \<Rightarrow> if v = [] then d else v)"

text \<open>
  The table of contents element: its attributes, its private fields, its content. The
  host's \<open>querySelectorAll\<close> is a parameter: it gives, for a selector and a document,
  the addresses of the matching elements in document order.
\<close>

record toc =
  toc_attrs :: "string \<rightharpoonup> string"
  toc_fields :: config
  toc_index :: nat
  toc_innerHTML :: string

definition toc_settings :: "(string \<rightharpoonup> string) \<Rightarrow> config" where
  "toc_settings attrs =
     (let n = hasAttribute attrs ''nested'' in
      \<lparr>nested = n,
       level = attr_or attrs ''level'' (if n then ''h2, h3, h4, h5, h6'' else ''h2''),
       heading = attrs ''heading'',
       headingType = attr_or attrs ''heading-type'' (if n then ''h2'' else ''li''),
       target = attr_or attrs ''target'' [],
       listClass = (case attrs ''list-class'' of
                      None \<Rightarrow> (if n then None else Some ''list-inline'')
                    | Some v \<Rightarrow> if v = [] then (if n then None else Some ''list-inline'')
                               else Some v),
       listType = attr_or attrs ''list-type'' ''ul''\<rparr>)"

definition toc_selector :: "config \<Rightarrow> string" where
  "toc_selector cfg = target cfg @ '' :is('' @ level cfg @ '')''"

definition toc_render ::
  "(string \<Rightarrow> document \<Rightarrow> nat list) \<Rightarrow> toc \<times> document \<Rightarrow> (toc \<times> document) option" where
  "toc_render querySelectorAll w =
     (let (t, doc) = w;
          headings = querySelectorAll (toc_selector (toc_fields t)) doc
      in if headings = [] then None
         else
           let (st, m) = createList (toc_fields t) headings True \<lparr>index = toc_index t, page = doc\<rparr>
           in Some (t\<lparr>toc_index := index st, toc_innerHTML := html m\<rparr>, page st))"

definition toc_init ::
  "(string \<Rightarrow> document \<Rightarrow> nat list) \<Rightarrow> toc \<times> document \<times> event list
     \<Rightarrow> toc \<times> document \<times> event list" where
  "toc_init querySelectorAll w =
     (let (t, doc, fired) = w in
      if hasAttribute (toc_attrs t) ''is-ready'' then (t, doc, fired)
      else
        let t1 = t\<lparr>toc_fields := toc_settings (toc_attrs t), toc_index := 0\<rparr> in
        case toc_render querySelectorAll (t1, doc) of
          None \<Rightarrow> (t1, doc, fired @ [debug ''No matching headings were found''])
        | Some (t2, doc2) \<Rightarrow>
            (t2\<lparr>toc_attrs := (toc_attrs t2)(''is-ready'' \<mapsto> [])\<rparr>, doc2,
             fired @ [emit ''toc'' ''ready'' None False]))"

text \<open>
  The heading anchors element. Setting \<open>innerHTML\<close> makes the host derive the
  text content from the new markup; that derivation is the parameter \<open>text_of\<close>.
  The elements that new markup creates (here and in the table of contents) carry no
  identifier; they are not added to \<open>nodes\<close>, which serves the identifier queries.
\<close>

record anchors =
  ha_attrs :: "string \<rightharpoonup> string"
  ha_icon :: string
  ha_levels :: string
  ha_before :: bool

definition classList_add :: "string list \<Rightarrow> string \<Rightarrow> string list" where
  "classList_add cl c = (if c \<in> set cl then cl else cl @ [c])"

definition anchor_markup :: "anchors \<Rightarrow> element \<Rightarrow> string" where
  \<open>anchor_markup a h =
     (let text = ''<span class="anchor-text">'' @ elem_innerHTML h @ ''</span>'';
          icon = ''<span class="anchor-icon" aria-hidden="true">'' @ ha_icon a @ ''</span>''
      in ''<a class="anchor-link" href="#'' @ elem_id h @ ''">'' @ nl_tabs 5
         @ (if ha_before a then icon @ '' '' @ text else text @ '' '' @ icon)
         @ nl_tabs 4 @ ''</a>'')\<close>

definition anchor_heading :: "(string \<Rightarrow> string) \<Rightarrow> anchors \<Rightarrow> document \<Rightarrow> nat \<Rightarrow> document" where
  "anchor_heading text_of a doc h =
     (let doc1 = doc\<lparr>heap := (heap doc)
                  (h := (heap doc h)\<lparr>classList := classList_add (classList (heap doc h)) ''anchor-h''\<rparr>)\<rparr>;
          doc2 = setTextAsID doc1 h;
          new = anchor_markup a (heap doc2 h)
      in doc2\<lparr>heap := (heap doc2)
                  (h := (heap doc2 h)\<lparr>elem_innerHTML := new, textContent := text_of new\<rparr>)\<rparr>)"

definition anchors_render ::
  "(string \<Rightarrow> document \<Rightarrow> nat list) \<Rightarrow> (string \<Rightarrow> string) \<Rightarrow> anchors \<times> document
     \<Rightarrow> document option" where
  "anchors_render querySelectorAll text_of w =
     (let (a, doc) = w;
          headings = querySelectorAll (ha_levels a) doc
      in if headings = [] then None
         else Some (fold (\<lambda>h d. anchor_heading text_of a d h) headings doc))"

definition anchors_init ::
  "(string \<Rightarrow> document \<Rightarrow> nat list) \<Rightarrow> (string \<Rightarrow> string)
     \<Rightarrow> anchors \<times> document \<times> event list \<Rightarrow> anchors \<times> document \<times> event list" where
  "anchors_init querySelectorAll text_of w =
     (let (a, doc, fired) = w in
      if hasAttribute (ha_attrs a) ''is-ready'' then (a, doc, fired)
      else
        let a1 = a\<lparr>ha_icon := attr_or (ha_attrs a) ''icon'' ''#'',
                   ha_levels := attr_or (ha_attrs a) ''levels'' ''h2, h3, h4, h5, h6'',
                   ha_before := hasAttribute (ha_attrs a) ''before''\<rparr> in
        case anchors_render querySelectorAll text_of (a1, doc) of
          None \<Rightarrow> (a1, doc, fired @ [debug ''No matching headings were found''])
        | Some doc2 \<Rightarrow>
            (a1\<lparr>ha_attrs := (ha_attrs a1)(''is-ready'' \<mapsto> [])\<rparr>, doc2,
             fired @ [emit ''heading-anchors'' ''ready'' None False]))"

text \<open>
  The sub-navigation element, with the listeners registered on the document as pairs of
  event type and listening element (registering a pair twice registers it once).
  \<open>reinit\<close> is written for this element, its only caller; a callback that is not a
  function is \<open>None\<close>.
\<close>

record subnav =
  sn_attrs :: "string \<rightharpoonup> string"
  sn_listeners :: "(string \<times> nat) list"
  sn_fired :: "event list"

definition addEventListener :: "(string \<times> nat) list \<Rightarrow> string \<Rightarrow> nat \<Rightarrow> (string \<times> nat) list" where
  "addEventListener ls ty l = (if (ty, l) \<in> set ls then ls else ls @ [(ty, l)])"

definition removeEventListener :: "(string \<times> nat) list \<Rightarrow> string \<Rightarrow> nat \<Rightarrow> (string \<times> nat) list" where
  "removeEventListener ls ty l = removeAll (ty, l) ls"

definition listen :: "nat \<Rightarrow> subnav \<Rightarrow> subnav" where
  "listen self w =
     w\<lparr>sn_listeners :=
          addEventListener (addEventListener (sn_listeners w) ''click'' self) ''keydown'' self\<rparr>"

definition reinit :: "(subnav \<Rightarrow> subnav) option \<Rightarrow> subnav \<Rightarrow> bool \<times> subnav" where
  "reinit callback w =
     (if \<not> hasAttribute (sn_attrs w) ''is-ready'' then (False, w)
      else if \<not> hasAttribute (sn_attrs w) ''is-paused'' \<or> callback = None then (True, w)
      else
        case callback of
          None \<Rightarrow> (True, w)
        | Some f \<Rightarrow> (True, (f w)\<lparr>sn_attrs := (sn_attrs (f w))(''is-paused'' := None)\<rparr>))"

definition subnav_init :: "nat \<Rightarrow> bool \<Rightarrow> subnav \<Rightarrow> subnav" where
  "subnav_init self has_details w =
     (let (isInit, w1) = reinit (Some (listen self)) w in
      if isInit then w1
      else if \<not> has_details then w1\<lparr>sn_fired := sn_fired w1 @ [debug ''No subnav was found'']\<rparr>
      else
        let w2 = listen self w1;
            w3 = w2\<lparr>sn_fired := sn_fired w2 @ [emit ''subnav'' ''ready'' None False]\<rparr>
        in w3\<lparr>sn_attrs := (sn_attrs w3)(''is-ready'' \<mapsto> [])\<rparr>)"

definition subnav_disconnectedCallback :: "nat \<Rightarrow> subnav \<Rightarrow> subnav" where
  "subnav_disconnectedCallback self w =
     w\<lparr>sn_listeners :=
          removeEventListener (removeEventListener (sn_listeners w) ''click'' self) ''keydown'' self,
        sn_attrs := (sn_attrs w)(''is-paused'' \<mapsto> [])\<rparr>"

section \<open>Notions for the statements\<close>

text \<open>
  Definitions that the statements and proofs use to speak about the program: the parts
  of one loop iteration, readings of the returned structure, and the two descriptions of
  nesting depth that the builder is compared with.
\<close>

subsection \<open>One iteration of the loop\<close>

text \<open>
  Names for the parts of one iteration: the state once the heading under the cursor has
  its identifier, its level, the test of the recursive call, the test of the
  \<open>break\<close>, the state when the item is complete and the item itself.
\<close>

definition visit :: "nat list \<Rightarrow> builder \<Rightarrow> builder" where
  "visit hs st = st\<lparr>page := setTextAsID (page st) (hs ! index st)\<rparr>"

definition level_at :: "nat list \<Rightarrow> builder \<Rightarrow> string" where
  "level_at hs st = drop 1 (tagName (heap (page st) (hs ! index st)))"

definition opens :: "config \<Rightarrow> nat list \<Rightarrow> builder \<Rightarrow> bool" where
  "opens cfg hs st =
     (nested cfg \<and> str_gt (next_level (page st) hs (index st) (level_at hs st)) (level_at hs st))"

definition closes :: "bool \<Rightarrow> nat list \<Rightarrow> builder \<Rightarrow> string \<Rightarrow> bool" where
  "closes isFirst hs st cl = (\<not> isFirst \<and> str_lt (next_level (page st) hs (index st) cl) cl)"

definition after :: "config \<Rightarrow> nat list \<Rightarrow> builder \<Rightarrow> builder" where
  "after cfg hs st =
     (if opens cfg hs (visit hs st) then fst (createList cfg hs False (visit hs st))
      else visit hs st)"

definition item :: "config \<Rightarrow> nat list \<Rightarrow> builder \<Rightarrow> li" where
  "item cfg hs st =
     Entry (elem_id (heap (page (visit hs st)) (hs ! index st)))
           (textContent (heap (page st) (hs ! index st)))
           (if opens cfg hs (visit hs st) then Some (snd (createList cfg hs False (visit hs st)))
            else None)"

subsection \<open>Reading the structure of the markup\<close>

text \<open>
  The entries of a list in the order of the markup, each with the depth of the list that
  holds it (the outermost list has depth \<open>d\<close>), its link target and its text.
\<close>

fun walk :: "nat \<Rightarrow> markup \<Rightarrow> (nat \<times> string \<times> string) list"
  and walk_li :: "nat \<Rightarrow> li \<Rightarrow> (nat \<times> string \<times> string) list" where
  "walk d (Markup s t c its) = concat (map (walk_li d) its)"
| "walk_li d (Caption c) = []"
| "walk_li d (Entry h t None) = [(d, h, t)]"
| "walk_li d (Entry h t (Some m)) = (d, h, t) # walk (Suc d) m"

text \<open>The nesting depth of a list: one for a list none of whose items holds a list.\<close>

fun depth :: "markup \<Rightarrow> nat" and depth_li :: "li \<Rightarrow> nat" where
  "depth (Markup s t c its) = Suc (fold max (map depth_li its) 0)"
| "depth_li (Caption c) = 0"
| "depth_li (Entry h t None) = 0"
| "depth_li (Entry h t (Some m)) = depth m"

fun has_sublist :: "li \<Rightarrow> bool" where
  "has_sublist (Caption c) = False"
| "has_sublist (Entry h t s) = (s \<noteq> None)"

fun caption_count :: "markup \<Rightarrow> nat" and caption_count_li :: "li \<Rightarrow> nat" where
  "caption_count (Markup s t c its) =
     (case s of None \<Rightarrow> 0 | Some x \<Rightarrow> 1) + sum_list (map caption_count_li its)"
| "caption_count_li (Caption c) = 1"
| "caption_count_li (Entry h t None) = 0"
| "caption_count_li (Entry h t (Some m)) = caption_count m"

text \<open>The entries alone, in the order of the markup: link target and text.\<close>

fun entries :: "markup \<Rightarrow> (string \<times> string) list"
  and entries_li :: "li \<Rightarrow> (string \<times> string) list" where
  "entries (Markup s t c its) = concat (map entries_li its)"
| "entries_li (Caption c) = []"
| "entries_li (Entry h t None) = [(h, t)]"
| "entries_li (Entry h t (Some m)) = (h, t) # entries m"

subsection \<open>Consumed headings and settled identifiers\<close>

text \<open>
  What an entry shows of a heading, the headings a call consumes when it starts with the
  cursor at \<open>i\<close> and returns with it at \<open>j\<close>, and the elements whose
  identifier the assigner will not touch again: those that have one, and those whose
  text gives none.
\<close>

definition info :: "document \<Rightarrow> nat \<Rightarrow> string \<times> string" where
  "info doc a = (elem_id (heap doc a), textContent (heap doc a))"

definition consumed :: "nat list \<Rightarrow> nat \<Rightarrow> nat \<Rightarrow> nat list" where
  "consumed hs i j = map (nth hs) [i ..< min (length hs) (j + 1)]"

definition settled :: "document \<Rightarrow> nat \<Rightarrow> bool" where
  "settled doc a = (elem_id (heap doc a) \<noteq> [] \<or> text_to_id (textContent (heap doc a)) = [])"

definition extends :: "document \<Rightarrow> document \<Rightarrow> bool" where
  "extends d d' =
     (\<forall>a. textContent (heap d' a) = textContent (heap d a)
          \<and> tagName (heap d' a) = tagName (heap d a)
          \<and> (settled d a \<longrightarrow> heap d' a = heap d a))"

definition accounted :: "nat list \<Rightarrow> builder \<Rightarrow> nat \<Rightarrow> builder \<Rightarrow> (string \<times> string) list \<Rightarrow> bool" where
  "accounted hs st i st' es =
     (extends (page st) (page st')
      \<and> es = map (info (page st')) (consumed hs i (index st'))
      \<and> (\<forall>a\<in>set (consumed hs i (index st')). settled (page st') a))"

text \<open>The identifier that the assigner sets once the loop has stopped at \<open>suffix\<close>.\<close>

definition candidate :: "string \<Rightarrow> nat \<Rightarrow> string" where
  "candidate ident suffix = ''kelp_'' @ ident @ (if suffix \<noteq> 0 then ''_'' @ decimal suffix else [])"

definition later_ids :: "document \<Rightarrow> string \<Rightarrow> nat \<Rightarrow> string set" where
  "later_ids doc ident s = {x \<in> set (ids_of doc). \<exists>k>s. x = suffixed ident k}"

subsection \<open>Nesting depth\<close>

text \<open>The levels of the headings, as the builder reads them off the tag names.\<close>

definition levels_of :: "document \<Rightarrow> nat list \<Rightarrow> string list" where
  "levels_of doc hs = map (\<lambda>a. drop 1 (tagName (heap doc a))) hs"

text \<open>
  The depths as one pass over the levels computes them, with a stack of the open levels:
  \<open>c\<close> is the level of the latest heading of the innermost open list and \<open>A\<close>
  the levels of the latest headings of the lists around it, innermost first. A heading
  whose level is greater than \<open>c\<close> opens a list (in nested mode); any other heading
  closes the open lists whose latest heading has a greater level, from the innermost
  outward and never the outermost, and is placed in the list it reaches. A heading with
  the empty level counts, for each list, as a heading of that list's latest level.
\<close>

definition effective :: "string \<Rightarrow> string \<Rightarrow> string" where
  "effective l c = (if l = [] then c else l)"

fun place :: "bool \<Rightarrow> string \<Rightarrow> string list \<Rightarrow> string list \<Rightarrow> nat list"
  and resume :: "bool \<Rightarrow> string \<Rightarrow> string list \<Rightarrow> string list \<Rightarrow> nat list" where
  "place n c A [] = []"
| "place n c A (l # ls) =
     (if n \<and> str_gt (effective l c) c then (length A + 2) # place n l (c # A) ls
      else resume n c A (l # ls))"
| "resume n c A [] = []"
| "resume n c [] (l # ls) = 1 # place n l [] ls"
| "resume n c (c' # A) (l # ls) =
     (if str_lt (effective l c) c then resume n c' A (l # ls)
      else (length A + 2) # place n l (c' # A) ls)"

fun stack_depths :: "bool \<Rightarrow> string list \<Rightarrow> nat list" where
  "stack_depths n [] = []"
| "stack_depths n (l # ls) = 1 # place n l [] ls"

text \<open>
  The depth rule in the words of the specification: a heading lies one level below its
  nearest ancestor, the nearest heading before it of strictly smaller rank, and at
  depth 1 when there is none. \<open>prev\<close> holds the headings before, nearest first, each
  with its depth.
\<close>

fun ancestor_depth :: "(string \<times> nat) list \<Rightarrow> string \<Rightarrow> nat" where
  "ancestor_depth [] l = 1"
| "ancestor_depth ((c, d) # prev) l = (if str_lt c l then d + 1 else ancestor_depth prev l)"

fun spec_depths_from :: "(string \<times> nat) list \<Rightarrow> string list \<Rightarrow> nat list" where
  "spec_depths_from prev [] = []"
| "spec_depths_from prev (l # ls) =
     ancestor_depth prev l # spec_depths_from ((l, ancestor_depth prev l) # prev) ls"

definition spec_depths :: "string list \<Rightarrow> nat list" where
  "spec_depths ls = spec_depths_from [] ls"

text \<open>
  For the comparison of the builder with the stack pass: the depths of the entries of a
  run of items, what the pass goes on with in the lists around a call that has returned,
  and the statement that a run of the loop, with the levels \<open>A\<close> open around it,
  yields the depths of the pass.
\<close>

definition depths_of :: "nat \<Rightarrow> li list \<Rightarrow> nat list" where
  "depths_of d list = map fst (concat (map (walk_li d) list))"

fun rest :: "bool \<Rightarrow> string list \<Rightarrow> string list \<Rightarrow> nat list" where
  "rest n [] ls = []"
| "rest n (c # A) ls = resume n c A ls"

definition refines :: "config \<Rightarrow> nat list \<Rightarrow> bool \<Rightarrow> builder \<Rightarrow> li list \<Rightarrow> bool" where
  "refines cfg hs isFirst st list =
     (\<forall>A. (isFirst \<longleftrightarrow> A = []) \<longrightarrow> index st < length hs \<longrightarrow>
        (\<exists>D. depths_of (length A + 1) (snd (createList_loop cfg hs isFirst st list)) =
                depths_of (length A + 1) list @ D
            \<and> D @ rest (nested cfg) A
                    (drop (index (fst (createList_loop cfg hs isFirst st list)) + 1)
                       (levels_of (page st) hs)) =
                (length A + 1) # place (nested cfg) (levels_of (page st) hs ! index st) A
                    (drop (index st + 1) (levels_of (page st) hs))))"

section \<open>Examples\<close>

definition mk_element :: "string \<Rightarrow> string \<Rightarrow> string \<Rightarrow> element" where
  "mk_element t i x =
     \<lparr>tagName = t, elem_id = i, textContent = x, classList = [], elem_innerHTML = x\<rparr>"

definition doc_23432 :: document where
  "doc_23432 = \<lparr>nodes = [0, 1, 2, 3, 4],
     heap = (\<lambda>_. mk_element ''DIV'' [] [])
       (0 := mk_element ''H2'' ''a'' ''A'', 1 := mk_element ''H3'' ''b'' ''B'',
        2 := mk_element ''H4'' ''c'' ''C'', 3 := mk_element ''H3'' ''d'' ''D'',
        4 := mk_element ''H2'' ''e'' ''E'')\<rparr>"

definition doc_243 :: document where
  "doc_243 = \<lparr>nodes = [0, 1, 2],
     heap = (\<lambda>_. mk_element ''DIV'' [] [])
       (0 := mk_element ''H2'' ''a'' ''A'', 1 := mk_element ''H4'' ''b'' ''B'',
        2 := mk_element ''H3'' ''c'' ''C'')\<rparr>"

definition doc_ids :: document where
  "doc_ids = \<lparr>nodes = [0, 1, 2, 3, 4],
     heap = (\<lambda>_. mk_element ''DIV'' [] [])
       (0 := mk_element ''H2'' [] ''Intro: a/b'', 1 := mk_element ''DIV'' ''kelp_Intro-a-b'' [],
        2 := mk_element ''P'' ''kelp_Intro-a-b_1'' [], 3 := mk_element ''H2'' [] [],
        4 := mk_element ''H2'' ''top'' ''Top'')\<rparr>"

definition doc_plain :: document where
  "doc_plain = \<lparr>nodes = [0, 1], heap = (\<lambda>_. mk_element ''P'' [] ''Some text'')\<rparr>"

definition cfg_nested :: config where
  "cfg_nested = \<lparr>nested = True, level = ''h2, h3, h4, h5, h6'', heading = None,
     headingType = ''h2'', target = [], listClass = None, listType = ''ul''\<rparr>"

definition cfg_flat :: config where
  "cfg_flat = \<lparr>nested = False, level = ''h2'', heading = Some ''On this page'',
     headingType = ''li'', target = [], listClass = Some ''list-inline'', listType = ''ul''\<rparr>"

definition cfg_captioned :: config where
  "cfg_captioned = \<lparr>nested = True, level = ''h2, h3, h4, h5, h6'',
     heading = Some ''On this page'', headingType = ''h2'', target = [], listClass = None,
     listType = ''ul''\<rparr>"

definition toc_done :: toc where
  "toc_done = \<lparr>toc_attrs = [''nested'' \<mapsto> [], ''is-ready'' \<mapsto> []],
     toc_fields = cfg_nested, toc_index = 5, toc_innerHTML = ''<ul></ul>''\<rparr>"

definition toc_new :: toc where
  "toc_new = \<lparr>toc_attrs = [''nested'' \<mapsto> [], ''heading'' \<mapsto> ''On this page''],
     toc_fields = cfg_flat, toc_index = 0, toc_innerHTML = ''<p>Loading</p>''\<rparr>"

definition anchors_done :: anchors where
  "anchors_done = \<lparr>ha_attrs = [''is-ready'' \<mapsto> []], ha_icon = ''#'',
     ha_levels = ''h2, h3, h4, h5, h6'', ha_before = False\<rparr>"

definition subnav_new :: subnav where
  "subnav_new = \<lparr>sn_attrs = Map.empty, sn_listeners = [], sn_fired = []\<rparr>"

definition no_match :: "string \<Rightarrow> document \<Rightarrow> nat list" where
  "no_match selector doc = []"

section \<open>Termination\<close>

subsection \<open>The probing loop of the assigner\<close>

lemma digit_char_inj: "a < 10 \<Longrightarrow> b < 10 \<Longrightarrow> digit_char a = digit_char b \<Longrightarrow> a = b"
proof -
  assume a: "a < 10" and b: "b < 10" and e: "digit_char a = digit_char b"
  have d: "distinct ''0123456789''" by simp
  from e have "''0123456789'' ! a = ''0123456789'' ! b" by (simp only: digit_char_def)
  moreover have "(''0123456789'' ! a = ''0123456789'' ! b) = (a = b)"
    by (rule nth_eq_iff_index_eq[OF d]) (use a b in simp_all)
  ultimately show "a = b" by simp
qed

lemma decimal_not_Nil: "decimal n \<noteq> []"
  by (subst decimal.simps) simp

lemma decimal_last: "last (decimal n) = digit_char (n mod 10)"
  by (subst decimal.simps) simp

lemma decimal_butlast: "butlast (decimal n) = (if n < 10 then [] else decimal (n div 10))"
  by (subst decimal.simps) simp

lemma decimal_inj: "decimal n = decimal m \<Longrightarrow> n = m"
proof (induction n arbitrary: m rule: decimal.induct)
  case (1 n)
  from "1.prems" have l: "digit_char (n mod 10) = digit_char (m mod 10)"
    by (metis decimal_last)
  then have m10: "n mod 10 = m mod 10"
    by (intro digit_char_inj) auto
  from "1.prems" have b: "butlast (decimal n) = butlast (decimal m)" by simp
  show ?case
  proof (cases "n < 10")
    case True
    with b have "m < 10" using decimal_not_Nil[of "m div 10"] by (auto simp: decimal_butlast split: if_splits)
    with True m10 show ?thesis by simp
  next
    case False
    with b have m: "\<not> m < 10" and e: "decimal (n div 10) = decimal (m div 10)"
      using decimal_not_Nil[of "m div 10"] decimal_not_Nil[of "n div 10"] by (auto simp: decimal_butlast split: if_splits)
    from "1.IH"[OF False e] have "n div 10 = m div 10" .
    with m10 show ?thesis by (metis div_mult_mod_eq)
  qed
qed

lemma suffixed_inj: "suffixed ident k = suffixed ident k' \<Longrightarrow> k = k'"
  by (simp add: suffixed_def decimal_inj)

lemma later_ids_finite: "finite (later_ids doc ident s)"
  by (simp add: later_ids_def)

lemma later_ids_mono: "later_ids doc ident (Suc s) \<subseteq> later_ids doc ident s"
  unfolding later_ids_def using Suc_lessD by blast

lemma later_ids_less:
  assumes "has_id doc (suffixed ident (Suc s))"
  shows "card (later_ids doc ident (Suc s)) < card (later_ids doc ident s)"
proof (rule psubset_card_mono[OF later_ids_finite])
  have "suffixed ident (Suc s) \<in> later_ids doc ident s"
    using assms by (auto simp: later_ids_def has_id_def)
  moreover have "suffixed ident (Suc s) \<notin> later_ids doc ident (Suc s)"
    by (auto simp: later_ids_def dest: suffixed_inj)
  ultimately show "later_ids doc ident (Suc s) \<subset> later_ids doc ident s"
    using later_ids_mono[of doc ident s] by blast
qed

lemma later_ids_le: "card (later_ids doc ident (Suc s)) \<le> card (later_ids doc ident s)"
  by (rule card_mono[OF later_ids_finite later_ids_mono])

text \<open>
  The loop ends: each round either finds the next candidate among the finitely many
  identifiers of the document, which are used up one by one, or stops.
\<close>

termination probe
proof (relation "measure (\<lambda>(doc, ident, s, e). card (later_ids doc ident s) + (if e then 1 else 0))")
  show "wf (measure (\<lambda>(doc, ident, s, e). card (later_ids doc ident s) + (if e then 1 else 0)))"
    by simp
next
  fix doc :: document and ident suffix and existing :: bool
  assume "existing"
  then show "((doc, ident, suffix + 1, has_id doc (suffixed ident (suffix + 1))),
              (doc, ident, suffix, existing))
             \<in> measure (\<lambda>(doc, ident, s, e). card (later_ids doc ident s) + (if e then 1 else 0))"
    using later_ids_less[of doc ident suffix] later_ids_le[of doc ident suffix]
    by (auto simp: less_Suc_eq_le)
qed

subsection \<open>The builder\<close>

text \<open>
  Termination. The recursive call and the next iteration both start from a cursor that
  the call before has left; so the first fact needed is that, wherever the builder
  returns, it returns with a cursor no smaller than the one it started from.
\<close>

lemma cursor_mono_dom:
  "createList_createList_loop_dom (Inl (cfg, hs, isFirst, st)) \<Longrightarrow>
     (if isFirst then 0 else index st + 1) \<le> index (fst (createList cfg hs isFirst st))"
  "createList_createList_loop_dom (Inr (cfg, hs, isFirst, st, list)) \<Longrightarrow>
     index st \<le> index (fst (createList_loop cfg hs isFirst st list))"
proof (induction cfg hs isFirst st and cfg hs isFirst st list
       rule: createList_createList_loop.pinduct)
  case (1 cfg hs isFirst st)
  then show ?case
    by (simp add: createList.psimps Let_def case_prod_beta)
next
  case (2 cfg hs isFirst st list)
  show ?case
  proof (cases "index st < length hs")
    case False
    then show ?thesis
      by (simp add: createList_loop.psimps[OF "2.hyps"])
  next
    case lt: True
    define h where "h = hs ! index st"
    define st1 where "st1 = st\<lparr>page := setTextAsID (page st) h\<rparr>"
    define cl where "cl = drop 1 (tagName (heap (page st1) h))"
    define href where "href = elem_id (heap (page st1) h)"
    define label where "label = textContent (heap (page st1) h)"
    define r where "r =
      (if nested cfg \<and> str_gt (next_level (page st1) hs (index st1) cl) cl
       then (let (s, m) = createList cfg hs False st1 in (s, Some m))
       else (st1, None))"
    define list' where "list' = list @ [Entry href label (snd r)]"
    have step: "createList_loop cfg hs isFirst st list =
       (if \<not> isFirst \<and> str_lt (next_level (page (fst r)) hs (index (fst r)) cl) cl
        then (fst r, list')
        else createList_loop cfg hs isFirst ((fst r)\<lparr>index := index (fst r) + 1\<rparr>) list')"
      by (subst createList_loop.psimps[OF "2.hyps"])
         (simp add: lt Let_def case_prod_beta h_def st1_def cl_def href_def label_def r_def
            list'_def)
    have r_ge: "index st \<le> index (fst r)"
    proof (cases "nested cfg \<and> str_gt (next_level (page st1) hs (index st1) cl) cl")
      case True
      from "2.IH"(1)[OF lt h_def st1_def cl_def href_def label_def True]
      show ?thesis
        using True by (simp add: r_def case_prod_beta st1_def)
    next
      case False
      then show ?thesis by (auto simp: r_def st1_def)
    qed
    show ?thesis
    proof (cases "\<not> isFirst \<and> str_lt (next_level (page (fst r)) hs (index (fst r)) cl) cl")
      case True
      then show ?thesis using r_ge by (subst step) simp
    next
      case False
      have "(fst r, snd r) = r" by simp
      from "2.IH"(2)[OF lt h_def st1_def cl_def href_def label_def r_def this list'_def False]
      show ?thesis
        using False r_ge by (subst step) simp
    qed
  qed
qed

lemma createList_dom_all: "All createList_createList_loop_dom"
proof (relation "measure (\<lambda>x. case x of
       Inl (cfg, hs, isFirst, st) \<Rightarrow> 2 * (length hs - (if isFirst then 0 else index st + 1)) + 2
     | Inr (cfg, hs, isFirst, st, l) \<Rightarrow> 2 * (length hs - index st) + 1)", goal_cases)
  case 1
  then show ?case by simp
next
  case (2 cfg headings isFirst st x)
  then show ?case by simp
next
  case (3 cfg headings isFirst st list x xa xb xc xd)
  then show ?case by simp
next
  case (4 cfg headings isFirst st list x xa xb xc xd xe xf y xg)
  have "index st \<le> index xf"
  proof (cases "nested cfg \<and> str_gt (next_level (page xa) headings (index xa) xb) xb")
    case True
    with 4 have "createList_createList_loop_dom (Inl (cfg, headings, False, xa))" by simp
    from cursor_mono_dom(1)[OF this] True 4 show ?thesis
      by (auto simp: case_prod_beta)
  next
    case False
    with 4 show ?thesis by auto
  qed
  with 4 show ?case by simp
qed

termination createList
  by (rule createList_dom_all)

declare createList.simps [simp del] createList_loop.simps [simp del]

subsection \<open>The markup text\<close>

lemma entries_part_subset: "x \<in> set (entries_part its) \<Longrightarrow> x \<in> set its"
  by (cases its rule: entries_part.cases) auto

termination html
proof (relation "measure (\<lambda>x. case x of Inl m \<Rightarrow> size m | Inr i \<Rightarrow> size i)", goal_cases)
  case 1
  show ?case by simp
next
  case (2 s t c its x)
  then have "x \<in> set its" by (rule entries_part_subset)
  then have "size x \<le> size_list size its" by (rule size_list_estimation') simp
  then show ?case by simp
next
  case (3 h t child m)
  then show ?case by simp
qed

section \<open>One iteration of the loop\<close>

text \<open>
  The assigner changes nothing but the identifier of the element it is given; the tag
  name and the text that the builder reads are those of the document it started from.
\<close>

lemma setTextAsID_tagName [simp]: "tagName (heap (setTextAsID doc a) b) = tagName (heap doc b)"
  by (simp add: setTextAsID_def Let_def)

lemma setTextAsID_textContent [simp]:
  "textContent (heap (setTextAsID doc a) b) = textContent (heap doc b)"
  by (simp add: setTextAsID_def Let_def)

lemma setTextAsID_nodes [simp]: "nodes (setTextAsID doc a) = nodes doc"
  by (simp add: setTextAsID_def Let_def)

lemma setTextAsID_other: "b \<noteq> a \<Longrightarrow> heap (setTextAsID doc a) b = heap doc b"
  by (simp add: setTextAsID_def Let_def)

lemma visit_index [simp]: "index (visit hs st) = index st"
  by (simp add: visit_def)

lemma level_at_visit [simp]: "level_at hs (visit hs st) = level_at hs st"
  by (simp add: visit_def level_at_def)

lemma createList_unfold:
  "createList cfg hs isFirst st =
     (fst (createList_loop cfg hs isFirst (st\<lparr>index := (if isFirst then 0 else index st + 1)\<rparr>) []),
      wrap_list cfg isFirst
        (snd (createList_loop cfg hs isFirst (st\<lparr>index := (if isFirst then 0 else index st + 1)\<rparr>) [])))"
  by (subst createList.simps) (simp add: Let_def case_prod_beta)

lemma loop_done:
  "\<not> index st < length hs \<Longrightarrow> createList_loop cfg hs isFirst st list = (st, list)"
  by (subst createList_loop.simps) simp

lemma loop_step:
  "index st < length hs \<Longrightarrow>
   createList_loop cfg hs isFirst st list =
     (if closes isFirst hs (after cfg hs st) (level_at hs st)
      then (after cfg hs st, list @ [item cfg hs st])
      else createList_loop cfg hs isFirst
             ((after cfg hs st)\<lparr>index := index (after cfg hs st) + 1\<rparr>)
             (list @ [item cfg hs st]))"
  by (subst createList_loop.simps)
     (simp add: Let_def case_prod_beta closes_def after_def item_def opens_def visit_def
        level_at_def)

lemma builder_induct [case_names createList loop]:
  assumes c: "\<And>cfg hs isFirst st.
      Q cfg hs isFirst (st\<lparr>index := (if isFirst then 0 else index st + 1)\<rparr>) [] \<Longrightarrow>
      P cfg hs isFirst st"
    and l: "\<And>cfg hs isFirst st list.
      (index st < length hs \<Longrightarrow> opens cfg hs (visit hs st) \<Longrightarrow> P cfg hs False (visit hs st)) \<Longrightarrow>
      (index st < length hs \<Longrightarrow> \<not> closes isFirst hs (after cfg hs st) (level_at hs st) \<Longrightarrow>
         Q cfg hs isFirst ((after cfg hs st)\<lparr>index := index (after cfg hs st) + 1\<rparr>)
           (list @ [item cfg hs st])) \<Longrightarrow>
      Q cfg hs isFirst st list"
  shows "P cfg hs isFirst st" and "Q cfg hs isFirst st list"
proof (induction cfg hs isFirst st and cfg hs isFirst st list
       rule: createList_createList_loop.induct)
  case (1 cfg hs isFirst st)
  show ?case by (rule c) (rule "1.IH", rule refl)
next
  case (2 cfg hs isFirst st list)
  show ?case
  proof (rule l)
    assume lt: "index st < length hs" and o: "opens cfg hs (visit hs st)"
    show "P cfg hs False (visit hs st)"
      using "2.IH"(1)[OF lt refl refl refl refl refl] o
      by (simp add: visit_def opens_def level_at_def)
  next
    assume lt: "index st < length hs"
      and nc: "\<not> closes isFirst hs (after cfg hs st) (level_at hs st)"
    show "Q cfg hs isFirst ((after cfg hs st)\<lparr>index := index (after cfg hs st) + 1\<rparr>)
           (list @ [item cfg hs st])"
      using "2.IH"(2)[OF lt refl refl refl refl refl refl, of "after cfg hs st"
          "if opens cfg hs (visit hs st) then Some (snd (createList cfg hs False (visit hs st))) else None"] nc
      by (simp add: visit_def opens_def level_at_def after_def item_def closes_def case_prod_beta)
  qed
qed

section \<open>Flat mode\<close>

lemma flat_loop:
  "\<not> nested cfg \<Longrightarrow> filter has_sublist list = [] \<Longrightarrow>
   filter has_sublist (snd (createList_loop cfg hs isFirst st list)) = []"
proof (induction cfg hs isFirst st list rule: builder_induct(2)[where P = "\<lambda>_ _ _ _. True", case_names createList loop])
  case (createList cfg hs isFirst st)
  then show ?case by simp
next
  case (loop cfg hs isFirst st list)
  show ?case
  proof (cases "index st < length hs")
    case False
    then show ?thesis using loop.prems by (simp add: loop_done)
  next
    case True
    have i: "filter has_sublist (list @ [item cfg hs st]) = []"
      using loop.prems by (simp add: item_def opens_def)
    show ?thesis
    proof (cases "closes isFirst hs (after cfg hs st) (level_at hs st)")
      case c: True
      then show ?thesis using i by (simp add: loop_step[OF True])
    next
      case c: False
      from loop.IH[OF True c loop.prems(1) i] c show ?thesis
        by (simp add: loop_step[OF True])
    qed
  qed
qed

lemma no_sublist_depth: "filter has_sublist its = [] \<Longrightarrow> fold max (map depth_li its) n = n"
proof (induction its arbitrary: n)
  case Nil
  then show ?case by simp
next
  case (Cons i its)
  from Cons.prems have "\<not> has_sublist i" and r: "filter has_sublist its = []"
    by (auto split: if_splits)
  then have "depth_li i = 0" by (cases i rule: depth_li.cases) auto
  with Cons.IH[OF r] show ?case by simp
qed

text \<open>
  C3. With nesting disabled the builder returns one list of nesting depth exactly 1,
  whatever the levels of the headings are and for either value of \<open>isFirst\<close>:
  no item of the list holds a nested list, and the test that guards the recursive call
  is false in every state, so no recursive call is made.
\<close>

theorem flat_mode_depth_one:
  "\<not> nested cfg \<Longrightarrow>
     depth (snd (createList cfg hs isFirst st)) = 1
     \<and> filter has_sublist (items (snd (createList cfg hs isFirst st))) = []
     \<and> \<not> opens cfg hs s"
proof -
  assume n: "\<not> nested cfg"
  let ?l = "snd (createList_loop cfg hs isFirst
               (st\<lparr>index := (if isFirst then 0 else index st + 1)\<rparr>) [])"
  have l: "filter has_sublist ?l = []" by (rule flat_loop[OF n]) simp
  have i: "filter has_sublist (items (wrap_list cfg isFirst ?l)) = []"
    using l by (simp add: wrap_list_def Let_def)
  have "depth (wrap_list cfg isFirst ?l) = 1"
    using no_sublist_depth[OF i, of 0] by (cases "wrap_list cfg isFirst ?l") simp
  with i n show ?thesis by (simp add: createList_unfold opens_def)
qed

theorem flat_mode_depth_one_witness:
  "\<not> nested cfg_flat
   \<and> depth (snd (createList cfg_flat [0, 1, 2, 3, 4] True \<lparr>index = 0, page = doc_23432\<rparr>)) = 1
   \<and> filter has_sublist
        (items (snd (createList cfg_flat [0, 1, 2, 3, 4] True \<lparr>index = 0, page = doc_23432\<rparr>))) = []
   \<and> \<not> opens cfg_flat [0, 1, 2, 3, 4] \<lparr>index = 0, page = doc_23432\<rparr>"
  using flat_mode_depth_one[of cfg_flat "[0, 1, 2, 3, 4]" True "\<lparr>index = 0, page = doc_23432\<rparr>"
          "\<lparr>index = 0, page = doc_23432\<rparr>"]
  by (simp add: cfg_flat_def)

section \<open>Captions\<close>

lemma no_captions:
  "\<not> isFirst \<longrightarrow> caption_count (snd (createList cfg hs isFirst st)) = 0"
  "sum_list (map caption_count_li list) = 0 \<Longrightarrow>
   sum_list (map caption_count_li (snd (createList_loop cfg hs isFirst st list))) = 0"
proof (induction cfg hs isFirst st and cfg hs isFirst st list rule: builder_induct)
  case (createList cfg hs isFirst st)
  show ?case
  proof
    assume nf: "\<not> isFirst"
    from createList nf show "caption_count (snd (createList cfg hs isFirst st)) = 0"
      by (simp add: createList_unfold wrap_list_def Let_def)
  qed
next
  case (loop cfg hs isFirst st list)
  show ?case
  proof (cases "index st < length hs")
    case False
    then show ?thesis using loop.prems by (simp add: loop_done)
  next
    case True
    have "caption_count_li (item cfg hs st) = 0"
      using loop.IH(1)[OF True] by (auto simp: item_def)
    with loop.prems have i: "sum_list (map caption_count_li (list @ [item cfg hs st])) = 0"
      by simp
    show ?thesis
    proof (cases "closes isFirst hs (after cfg hs st) (level_at hs st)")
      case c: True
      then show ?thesis using i by (simp add: loop_step[OF True])
    next
      case c: False
      from loop.IH(2)[OF True c i] c show ?thesis
        by (simp add: loop_step[OF True])
    qed
  qed
qed

text \<open>
  C7. With a caption configured (a non-empty \<open>heading\<close>), the top-level call renders
  it once: when the container tag is \<open>li\<close> it is the first item of the list that
  holds the generated entries and nothing stands before the list; for any other tag it
  is a standalone element of that tag before the list, whose items are the generated
  entries alone. A call that is not the top-level one renders no caption anywhere.
\<close>

theorem caption_rendering:
  assumes "heading cfg = Some c" and "c \<noteq> []"
  shows "(headingType cfg = ''li'' \<longrightarrow>
            standalone (snd (createList cfg hs True st)) = None
            \<and> items (snd (createList cfg hs True st)) =
                Caption c # snd (createList_loop cfg hs True (st\<lparr>index := 0\<rparr>) []))
       \<and> (headingType cfg \<noteq> ''li'' \<longrightarrow>
            standalone (snd (createList cfg hs True st)) = Some (headingType cfg, c)
            \<and> items (snd (createList cfg hs True st)) =
                snd (createList_loop cfg hs True (st\<lparr>index := 0\<rparr>) []))
       \<and> caption_count (snd (createList cfg hs True st)) = 1
       \<and> caption_count (snd (createList cfg hs False st)) = 0"
proof -
  have l: "sum_list (map caption_count_li (snd (createList_loop cfg hs True (st\<lparr>index := 0\<rparr>) []))) = 0"
    by (rule no_captions(2)) simp
  have n: "caption_count (snd (createList cfg hs False st)) = 0"
    using no_captions(1)[of False cfg hs st] by simp
  show ?thesis
    using assms l n
    by (simp add: createList_unfold wrap_list_def truthy_def Let_def)
qed

text \<open>The facts that evaluate the builder on an example page.\<close>

lemmas example_eval = loop_done loop_step setTextAsID_def next_level_def str_gt_def
  wrap_list_def truthy_def mk_element_def Let_def visit_def level_at_def opens_def closes_def
  after_def item_def

theorem caption_rendering_witness:
  "heading cfg_flat = Some ''On this page'' \<and> ''On this page'' \<noteq> [] \<and> headingType cfg_flat = ''li''
   \<and> standalone (snd (createList cfg_flat [0, 1, 2, 3, 4] True \<lparr>index = 0, page = doc_23432\<rparr>)) = None
   \<and> items (snd (createList cfg_flat [0, 1, 2, 3, 4] True \<lparr>index = 0, page = doc_23432\<rparr>)) =
       [Caption ''On this page'', Entry ''a'' ''A'' None, Entry ''b'' ''B'' None,
        Entry ''c'' ''C'' None, Entry ''d'' ''D'' None, Entry ''e'' ''E'' None]
   \<and> heading cfg_captioned = Some ''On this page'' \<and> headingType cfg_captioned \<noteq> ''li''
   \<and> standalone (snd (createList cfg_captioned [0, 1, 2, 3, 4] True \<lparr>index = 0, page = doc_23432\<rparr>))
       = Some (''h2'', ''On this page'')
   \<and> caption_count (snd (createList cfg_captioned [0, 1, 2, 3, 4] True \<lparr>index = 0, page = doc_23432\<rparr>)) = 1"
proof -
  have f: "snd (createList_loop cfg_flat [0, 1, 2, 3, 4] True \<lparr>index = 0, page = doc_23432\<rparr> []) =
       [Entry ''a'' ''A'' None, Entry ''b'' ''B'' None,
        Entry ''c'' ''C'' None, Entry ''d'' ''D'' None, Entry ''e'' ''E'' None]"
    by (simp add: example_eval doc_23432_def cfg_flat_def)
  show ?thesis
    using caption_rendering[of cfg_flat "''On this page''" "[0, 1, 2, 3, 4]"
            "\<lparr>index = 0, page = doc_23432\<rparr>"]
          caption_rendering[of cfg_captioned "''On this page''" "[0, 1, 2, 3, 4]"
            "\<lparr>index = 0, page = doc_23432\<rparr>"] f
    by (simp add: cfg_flat_def cfg_captioned_def)
qed

section \<open>The example of the headings 2, 3, 4, 3, 2\<close>

lemma inner_list_23432:
  "createList cfg_nested [0, 1, 2, 3, 4] False \<lparr>index = 1, page = doc_23432\<rparr> =
     (\<lparr>index = 2, page = doc_23432\<rparr>, Markup None ''ul'' None [Entry ''c'' ''C'' None])"
  by (subst createList_unfold) (simp add: example_eval doc_23432_def cfg_nested_def)

lemma middle_list_23432:
  "createList cfg_nested [0, 1, 2, 3, 4] False \<lparr>index = 0, page = doc_23432\<rparr> =
     (\<lparr>index = 3, page = doc_23432\<rparr>,
      Markup None ''ul'' None
        [Entry ''b'' ''B'' (Some (Markup None ''ul'' None [Entry ''c'' ''C'' None])),
         Entry ''d'' ''D'' None])"
  using inner_list_23432
  by (subst createList_unfold) (simp add: example_eval doc_23432_def cfg_nested_def)

text \<open>
  C4. In nested mode, for headings of the levels 2, 3, 4, 3, 2 the builder returns a list
  whose first item (the first level-2 heading) holds a list with the level-3 heading,
  which holds a list with the level-4 heading; the second level-3 heading follows as a
  sibling in the list under the first item; the last level-2 heading is a second
  top-level item. The depths of the five entries are 1, 2, 3, 2, 1.
\<close>

theorem nested_23432:
  "createList cfg_nested [0, 1, 2, 3, 4] True \<lparr>index = i, page = doc_23432\<rparr> =
     (\<lparr>index = 5, page = doc_23432\<rparr>,
      Markup None ''ul'' None
        [Entry ''a'' ''A''
           (Some (Markup None ''ul'' None
              [Entry ''b'' ''B'' (Some (Markup None ''ul'' None [Entry ''c'' ''C'' None])),
               Entry ''d'' ''D'' None])),
         Entry ''e'' ''E'' None])
   \<and> map fst (walk 1 (snd (createList cfg_nested [0, 1, 2, 3, 4] True
                             \<lparr>index = i, page = doc_23432\<rparr>))) = [1, 2, 3, 2, 1]"
proof -
  have e: "createList cfg_nested [0, 1, 2, 3, 4] True \<lparr>index = i, page = doc_23432\<rparr> =
     (\<lparr>index = 5, page = doc_23432\<rparr>,
      Markup None ''ul'' None
        [Entry ''a'' ''A''
           (Some (Markup None ''ul'' None
              [Entry ''b'' ''B'' (Some (Markup None ''ul'' None [Entry ''c'' ''C'' None])),
               Entry ''d'' ''D'' None])),
         Entry ''e'' ''E'' None])"
    using middle_list_23432
    by (subst createList_unfold) (simp add: example_eval doc_23432_def cfg_nested_def)
  show ?thesis unfolding e by simp
qed

section \<open>The cursor and the end of the sequence\<close>

lemma str_lt_irrefl [simp]: "\<not> str_lt a a"
  by (induction a) auto

lemma next_level_last: "length hs \<le> i + 1 \<Longrightarrow> next_level doc hs i cl = cl"
  by (simp add: next_level_def)

lemma not_opens_last: "length hs \<le> index st + 1 \<Longrightarrow> \<not> opens cfg hs st"
  by (simp add: opens_def next_level_last str_gt_def)

lemma not_closes_last: "length hs \<le> index st + 1 \<Longrightarrow> \<not> closes isFirst hs st cl"
  by (simp add: closes_def next_level_last)

lemma cursor_mono:
  "(if isFirst then 0 else index st + 1) \<le> index (fst (createList cfg hs isFirst st))"
  "index st \<le> index (fst (createList_loop cfg hs isFirst st list))"
  using createList_dom_all cursor_mono_dom by blast+

lemma after_mono: "index st \<le> index (after cfg hs st)"
  using cursor_mono(1)[of False "visit hs st" cfg hs] by (simp add: after_def)

lemma top_level_exhausts: "length hs \<le> index (fst (createList_loop cfg hs True st list))"
proof (induction cfg hs "True" st list
    rule: builder_induct(2)[where P = "\<lambda>_ _ _ _. True", case_names createList loop])
  case (createList cfg hs isFirst st)
  then show ?case by simp
next
  case (loop cfg hs st list)
  show ?case
  proof (cases "index st < length hs")
    case False
    then show ?thesis by (simp add: loop_done)
  next
    case True
    have c: "\<not> closes True hs (after cfg hs st) (level_at hs st)" by (simp add: closes_def)
    from loop(2)[OF True c] c show ?thesis by (simp add: loop_step[OF True])
  qed
qed

text \<open>
  C10. The builder terminates on every sequence of headings and every configuration:
  every call of \<open>#createList\<close> and every entry of its loop lies in the accessible
  part of the recursion (no infinite chain of calls starts there). The shared cursor
  never decreases over a run of the loop or over the handling of one item, a recursive
  call returns with a cursor strictly beyond the one it was entered with, and the
  top-level call returns only when the cursor has passed the whole sequence.
\<close>

theorem builder_terminates:
  "createList_createList_loop_dom (Inl (cfg, hs, isFirst, st))
   \<and> createList_createList_loop_dom (Inr (cfg, hs, isFirst, st, list))
   \<and> index st \<le> index (fst (createList_loop cfg hs isFirst st list))
   \<and> index st \<le> index (after cfg hs st)
   \<and> index st < index (fst (createList cfg hs False st))
   \<and> length hs \<le> index (fst (createList cfg hs True st))"
proof -
  have "index st < index (fst (createList cfg hs False st))"
    using cursor_mono(1)[of False st cfg hs] by simp
  moreover have "length hs \<le> index (fst (createList cfg hs True st))"
    using top_level_exhausts[of hs cfg "st\<lparr>index := 0\<rparr>" "[]"] by (simp add: createList_unfold)
  ultimately show ?thesis
    using createList_dom_all cursor_mono(2) after_mono by blast
qed

text \<open>
  C5. When the cursor is on the last heading, the level of the next heading is taken to
  be the current level, so the last heading opens no child list; the loop that consumes
  it appends its item without a nested list and returns with the cursor at the end. An
  enclosing call, whose recursive call has left the cursor at or beyond the end, appends
  the item it was building, consumes nothing more and returns.
\<close>

theorem last_heading_closes:
  assumes last: "index st + 1 = length hs"
  shows "next_level doc hs (index st) cl = cl
       \<and> \<not> opens cfg hs (visit hs st)
       \<and> createList_loop cfg hs isFirst st list =
           ((visit hs st)\<lparr>index := length hs\<rparr>,
            list @ [Entry (elem_id (heap (page (visit hs st)) (hs ! index st)))
                          (textContent (heap (page st) (hs ! index st))) None])
       \<and> (index anc < length hs \<and> length hs \<le> index (after cfg hs anc) \<longrightarrow>
            createList_loop cfg hs isFirst anc list =
              ((after cfg hs anc)\<lparr>index := index (after cfg hs anc) + 1\<rparr>,
               list @ [item cfg hs anc]))"
proof -
  have lt: "index st < length hs" using last by simp
  have o: "\<not> opens cfg hs (visit hs st)"
    using last by (intro not_opens_last) simp
  have a: "after cfg hs st = visit hs st" using o by (simp add: after_def)
  have c: "\<not> closes isFirst hs (visit hs st) (level_at hs st)"
    using last by (intro not_closes_last) simp
  have 1: "createList_loop cfg hs isFirst st list =
           ((visit hs st)\<lparr>index := length hs\<rparr>,
            list @ [Entry (elem_id (heap (page (visit hs st)) (hs ! index st)))
                          (textContent (heap (page st) (hs ! index st))) None])"
    using o c last by (simp add: loop_step[OF lt] a loop_done item_def)
  have 2: "createList_loop cfg hs isFirst anc list =
              ((after cfg hs anc)\<lparr>index := index (after cfg hs anc) + 1\<rparr>,
               list @ [item cfg hs anc])"
    if l: "index anc < length hs" and e: "length hs \<le> index (after cfg hs anc)"
  proof -
    have "\<not> closes isFirst hs (after cfg hs anc) (level_at hs anc)"
      using e by (intro not_closes_last) simp
    then show ?thesis using e by (simp add: loop_step[OF l] loop_done)
  qed
  show ?thesis using last o 1 2 by (simp add: next_level_last)
qed

theorem last_heading_closes_witness:
  "index \<lparr>index = 1, page = doc_23432\<rparr> + 1 = length [0::nat, 1]
   \<and> \<not> opens cfg_nested [0, 1] \<lparr>index = 1, page = doc_23432\<rparr>
   \<and> createList_loop cfg_nested [0, 1] False \<lparr>index = 1, page = doc_23432\<rparr> [] =
       (\<lparr>index = 2, page = doc_23432\<rparr>, [Entry ''b'' ''B'' None])
   \<and> index \<lparr>index = 0, page = doc_23432\<rparr> < length [0::nat, 1]
   \<and> length [0::nat, 1] \<le> index (after cfg_nested [0, 1] \<lparr>index = 0, page = doc_23432\<rparr>)
   \<and> createList_loop cfg_nested [0, 1] True \<lparr>index = 0, page = doc_23432\<rparr> [] =
       (\<lparr>index = 3, page = doc_23432\<rparr>,
        [Entry ''a'' ''A'' (Some (Markup None ''ul'' None [Entry ''b'' ''B'' None]))])"
proof -
  have v: "visit [0, 1] \<lparr>index = 1, page = doc_23432\<rparr> = \<lparr>index = 1, page = doc_23432\<rparr>"
          "visit [0, 1] \<lparr>index = 0, page = doc_23432\<rparr> = \<lparr>index = 0, page = doc_23432\<rparr>"
    by (simp_all add: visit_def setTextAsID_def doc_23432_def mk_element_def)
  have h: "elem_id (heap doc_23432 1) = ''b''" "textContent (heap doc_23432 1) = ''B''"
          "elem_id (heap doc_23432 0) = ''a''" "textContent (heap doc_23432 0) = ''A''"
          "tagName (heap doc_23432 0) = ''H2''" "tagName (heap doc_23432 1) = ''H3''"
    by (simp_all add: doc_23432_def mk_element_def)
  have inner: "createList_loop cfg_nested [0, 1] False \<lparr>index = 1, page = doc_23432\<rparr> [] =
       (\<lparr>index = 2, page = doc_23432\<rparr>, [Entry ''b'' ''B'' None])"
    using last_heading_closes[of "\<lparr>index = 1, page = doc_23432\<rparr>" "[0, 1]" doc_23432 "''3''"
       cfg_nested False "[]" "\<lparr>index = 0, page = doc_23432\<rparr>"] v h
    by simp
  have c: "createList cfg_nested [0, 1] False \<lparr>index = 0, page = doc_23432\<rparr> =
       (\<lparr>index = 2, page = doc_23432\<rparr>, Markup None ''ul'' None [Entry ''b'' ''B'' None])"
    using inner by (simp add: createList_unfold wrap_list_def cfg_nested_def truthy_def)
  have o: "opens cfg_nested [0, 1] \<lparr>index = 0, page = doc_23432\<rparr>"
    using h by (simp add: opens_def level_at_def next_level_def str_gt_def cfg_nested_def)
  have a: "after cfg_nested [0, 1] \<lparr>index = 0, page = doc_23432\<rparr> = \<lparr>index = 2, page = doc_23432\<rparr>"
    using o c v by (simp add: after_def)
  have i: "item cfg_nested [0, 1] \<lparr>index = 0, page = doc_23432\<rparr> =
      Entry ''a'' ''A'' (Some (Markup None ''ul'' None [Entry ''b'' ''B'' None]))"
    using o c v h by (simp add: item_def)
  show ?thesis
    using last_heading_closes[of "\<lparr>index = 1, page = doc_23432\<rparr>" "[0, 1]" doc_23432 "''3''"
       cfg_nested True "[]" "\<lparr>index = 0, page = doc_23432\<rparr>"] inner
       not_opens_last[of "[0, 1]" "\<lparr>index = 1, page = doc_23432\<rparr>" cfg_nested] a i
    by simp
qed

section \<open>Every heading is listed once\<close>

lemma extends_refl [simp]: "extends d d"
  by (simp add: extends_def)

lemma extends_settled: "extends d d' \<Longrightarrow> settled d a \<Longrightarrow> settled d' a"
  by (simp add: extends_def settled_def)

lemma extends_trans: "extends d d' \<Longrightarrow> extends d' d'' \<Longrightarrow> extends d d''"
  unfolding extends_def by (metis settled_def)

lemma extends_info: "extends d d' \<Longrightarrow> settled d a \<Longrightarrow> info d' a = info d a"
  by (simp add: extends_def info_def)

lemma setTextAsID_settled: "settled (setTextAsID doc a) a"
  by (simp add: setTextAsID_def settled_def Let_def)

lemma setTextAsID_keeps: "settled doc b \<Longrightarrow> heap (setTextAsID doc a) b = heap doc b"
  by (cases "b = a") (auto simp: setTextAsID_def settled_def Let_def)

lemma setTextAsID_extends: "extends doc (setTextAsID doc a)"
  by (simp add: extends_def setTextAsID_keeps)

lemma consumed_empty: "length hs \<le> i \<Longrightarrow> consumed hs i j = []"
  by (simp add: consumed_def)

lemma consumed_single: "i < length hs \<Longrightarrow> consumed hs i i = [hs ! i]"
  by (simp add: consumed_def)

lemma consumed_Cons:
  "i < length hs \<Longrightarrow> i \<le> j \<Longrightarrow> consumed hs i j = hs ! i # consumed hs (i + 1) j"
  by (simp add: consumed_def upt_conv_Cons)

lemma upt_split: "i \<le> j \<Longrightarrow> j \<le> k \<Longrightarrow> [i..<k] = [i..<j] @ [j..<k]"
  using upt_add_eq_append[of i j "k - j"] by simp

lemma consumed_append:
  assumes "i \<le> k + 1" and "k \<le> j"
  shows "consumed hs i j = consumed hs i k @ consumed hs (k + 1) j"
proof (cases "k + 1 \<le> length hs")
  case True
  then have "[i ..< min (length hs) (j + 1)] = [i ..< k + 1] @ [k + 1 ..< min (length hs) (j + 1)]"
    using assms by (intro upt_split) auto
  with True show ?thesis by (simp add: consumed_def min_absorb2)
next
  case False
  then show ?thesis using assms by (simp add: consumed_def min_absorb1)
qed

lemma entries_wrap_list: "entries (wrap_list cfg isFirst l) = concat (map entries_li l)"
  by (simp add: wrap_list_def Let_def)

lemma map_info_cong:
  "extends d d' \<Longrightarrow> \<forall>a\<in>set xs. settled d a \<Longrightarrow> map (info d') xs = map (info d) xs"
  by (simp add: extends_info)

lemma visit_extends: "extends (page st) (page (visit hs st))"
  by (simp add: visit_def setTextAsID_extends)

lemma visit_textContent [simp]:
  "textContent (heap (page (visit hs st)) a) = textContent (heap (page st) a)"
  by (simp add: visit_def)

lemma visit_settled: "settled (page (visit hs st)) (hs ! index st)"
  by (simp add: visit_def setTextAsID_settled)

lemma builder_accounted:
  "accounted hs st (if isFirst then 0 else index st + 1) (fst (createList cfg hs isFirst st))
     (entries (snd (createList cfg hs isFirst st)))"
  "accounted hs st (index st) (fst (createList_loop cfg hs isFirst st list))
     (drop (length (concat (map entries_li list)))
        (concat (map entries_li (snd (createList_loop cfg hs isFirst st list)))))
   \<and> take (length (concat (map entries_li list)))
        (concat (map entries_li (snd (createList_loop cfg hs isFirst st list))))
       = concat (map entries_li list)"
proof (induction cfg hs isFirst st and cfg hs isFirst st list rule: builder_induct)
  case (createList cfg hs isFirst st)
  then show ?case
    by (simp add: createList_unfold entries_wrap_list accounted_def)
next
  case (loop cfg hs isFirst st list)
  show ?case
  proof (cases "index st < length hs")
    case False
    then show ?thesis by (simp add: loop_done accounted_def consumed_empty)
  next
    case lt: True
    define i where "i = index st"
    define v where "v = visit hs st"
    define A where "A = after cfg hs st"
    define it where "it = item cfg hs st"
    have iv: "index v = i" by (simp add: v_def i_def)
    have item_acc: "accounted hs st i A (entries_li it)"
    proof (cases "opens cfg hs v")
      case True
      from loop.IH(1)[OF lt] True
      have c: "accounted hs v (i + 1) A (entries (snd (createList cfg hs False v)))"
        by (simp add: v_def A_def after_def i_def)
      have ge: "i \<le> index A" using after_mono[of st cfg hs] by (simp add: A_def i_def)
      have sv: "settled (page v) (hs ! i)" using visit_settled[of hs st] by (simp add: v_def i_def)
      have ev: "extends (page st) (page v)" using visit_extends[of st hs] by (simp add: v_def)
      have eA: "extends (page v) (page A)" using c by (simp add: accounted_def)
      have h: "info (page A) (hs ! i) = info (page v) (hs ! i)"
        by (rule extends_info[OF eA sv])
      have "entries_li it = info (page v) (hs ! i) # entries (snd (createList cfg hs False v))"
        using True by (simp add: it_def item_def v_def i_def info_def)
      also have "\<dots> = map (info (page A)) (consumed hs i (index A))"
        using c h lt ge by (simp add: accounted_def consumed_Cons i_def)
      finally have 1: "entries_li it = map (info (page A)) (consumed hs i (index A))" .
      have 2: "\<forall>a\<in>set (consumed hs i (index A)). settled (page A) a"
        using c lt ge extends_settled[OF eA sv]
        by (simp add: accounted_def consumed_Cons i_def)
      show ?thesis
        using 1 2 extends_trans[OF ev eA] by (simp add: accounted_def)
    next
      case False
      then have A: "A = v" by (simp add: A_def after_def v_def)
      have "entries_li it = [info (page v) (hs ! i)]"
        using False by (simp add: it_def item_def v_def i_def info_def)
      then show ?thesis
        using lt visit_settled[of hs st] visit_extends[of st hs]
        by (simp add: accounted_def A iv consumed_single v_def i_def)
    qed
    show ?thesis
    proof (cases "closes isFirst hs A (level_at hs st)")
      case True
      then show ?thesis
        using item_acc by (simp add: loop_step[OF lt] A_def it_def i_def)
    next
      case False
      define st' where "st' = fst (createList_loop cfg hs isFirst (A\<lparr>index := index A + 1\<rparr>) (list @ [it]))"
      define l' where "l' = snd (createList_loop cfg hs isFirst (A\<lparr>index := index A + 1\<rparr>) (list @ [it]))"
      have res: "createList_loop cfg hs isFirst st list = (st', l')"
        using False by (simp add: loop_step[OF lt] A_def it_def st'_def l'_def)
      from loop.IH(2)[OF lt] False
      have r: "accounted hs (A\<lparr>index := index A + 1\<rparr>) (index A + 1) st'
                 (drop (length (concat (map entries_li (list @ [it])))) (concat (map entries_li l')))"
        and t: "take (length (concat (map entries_li (list @ [it])))) (concat (map entries_li l'))
                = concat (map entries_li (list @ [it]))"
        by (simp_all add: A_def it_def st'_def l'_def)
      have ge: "i \<le> index A" using after_mono[of st cfg hs] by (simp add: A_def i_def)
      have ge': "index A + 1 \<le> index st'"
        using cursor_mono(2)[of "A\<lparr>index := index A + 1\<rparr>" cfg hs isFirst "list @ [it]"]
        by (simp add: st'_def)
      have eA: "extends (page st) (page A)" using item_acc by (simp add: accounted_def)
      have eS: "extends (page A) (page st')" using r by (simp add: accounted_def)
      have sA: "\<forall>a\<in>set (consumed hs i (index A)). settled (page A) a"
        using item_acc by (simp add: accounted_def)
      have split: "consumed hs i (index st') = consumed hs i (index A) @ consumed hs (index A + 1) (index st')"
        using ge ge' by (intro consumed_append) auto
      have all: "concat (map entries_li l') =
           concat (map entries_li list) @ entries_li it
           @ drop (length (concat (map entries_li (list @ [it])))) (concat (map entries_li l'))"
        using append_take_drop_id[of "length (concat (map entries_li (list @ [it])))" "concat (map entries_li l')"]
        by (simp only: t) simp
      have d: "drop (length (concat (map entries_li list))) (concat (map entries_li l')) =
           entries_li it @ drop (length (concat (map entries_li (list @ [it])))) (concat (map entries_li l'))"
        by (subst all) simp
      have tk: "take (length (concat (map entries_li list))) (concat (map entries_li l')) =
           concat (map entries_li list)"
        by (subst all) simp
      have "entries_li it = map (info (page st')) (consumed hs i (index A))"
        using item_acc map_info_cong[OF eS sA] by (simp add: accounted_def)
      then have es: "drop (length (concat (map entries_li list))) (concat (map entries_li l')) =
           map (info (page st')) (consumed hs i (index st'))"
        using r by (simp add: d split accounted_def)
      have st: "\<forall>a\<in>set (consumed hs i (index st')). settled (page st') a"
        using r sA extends_settled[OF eS] by (auto simp: split accounted_def)
      show ?thesis
        using es st tk extends_trans[OF eA eS]
        by (simp add: res accounted_def i_def)
    qed
  qed
qed

lemma consumed_all: "length hs \<le> j \<Longrightarrow> consumed hs 0 j = hs"
  by (simp add: consumed_def min_absorb1 map_nth)

lemma top_level_entries:
  "entries (snd (createList cfg hs True st)) =
     map (\<lambda>a. (elem_id (heap (page (fst (createList cfg hs True st))) a),
                textContent (heap (page st) a))) hs
   \<and> length (entries (snd (createList cfg hs True st))) = length hs"
proof -
  let ?st' = "fst (createList cfg hs True st)"
  have a: "accounted hs st 0 ?st' (entries (snd (createList cfg hs True st)))"
    using builder_accounted(1)[of hs st True cfg] by simp
  have "length hs \<le> index ?st'"
    using top_level_exhausts[of hs cfg "st\<lparr>index := 0\<rparr>" "[]"] by (simp add: createList_unfold)
  then have c: "consumed hs 0 (index ?st') = hs" by (rule consumed_all)
  have t: "textContent (heap (page ?st') b) = textContent (heap (page st) b)" for b
    using a by (simp add: accounted_def extends_def)
  have "entries (snd (createList cfg hs True st)) = map (info (page ?st')) hs"
    using a c by (simp add: accounted_def)
  then show ?thesis by (simp add: info_def t)
qed

text \<open>
  C1. The entries of the structure that the top-level call returns, read in the order of
  the markup through all nested lists, are the headings of the sequence in document
  order, one entry for each heading: the link target is the identifier the heading has
  when the build is over, the text is the text of the heading. No heading is left out
  and none is listed twice, with nesting or without (the configuration is arbitrary).
\<close>

theorem every_heading_once:
  "entries (snd (createList cfg hs True st)) =
     map (\<lambda>a. (elem_id (heap (page (fst (createList cfg hs True st))) a),
                textContent (heap (page st) a))) hs
   \<and> length (entries (snd (createList cfg hs True st))) = length hs"
  by (rule top_level_entries)

lemma walk_entries:
  "map snd (walk d m) = entries m"
  "map snd (walk_li d i) = entries_li i"
  by (induction d m and d i rule: walk_walk_li.induct) (simp_all add: map_concat cong: map_cong)

section \<open>Identifiers\<close>

lemma candidate_Suc: "candidate ident (Suc k) = suffixed ident (Suc k)"
  by (simp add: candidate_def suffixed_def)

lemma probe_free:
  "existing = has_id doc (candidate ident suffix) \<Longrightarrow>
   \<not> has_id doc (candidate ident (probe doc ident suffix existing))"
proof (induction doc ident suffix existing rule: probe.induct)
  case (1 doc ident suffix existing)
  show ?case
  proof (cases existing)
    case True
    have "\<not> has_id doc (candidate ident (probe doc ident (suffix + 1)
             (has_id doc (suffixed ident (suffix + 1)))))"
      using "1.IH"[OF True] by (simp add: candidate_Suc)
    with True show ?thesis by simp
  next
    case False
    with "1.prems" show ?thesis by simp
  qed
qed

lemma setTextAsID_assigns:
  assumes "elem_id (heap doc a) = []" and "text_to_id (textContent (heap doc a)) \<noteq> []"
  shows "elem_id (heap (setTextAsID doc a) a) =
           candidate (text_to_id (textContent (heap doc a)))
             (probe doc (text_to_id (textContent (heap doc a))) 0
                (has_id doc (''kelp_'' @ text_to_id (textContent (heap doc a)))))"
  using assms by (simp add: setTextAsID_def Let_def candidate_def)

lemma setTextAsID_fresh:
  assumes "elem_id (heap doc a) = []" and "text_to_id (textContent (heap doc a)) \<noteq> []"
  shows "elem_id (heap (setTextAsID doc a) a) \<notin> set (ids_of doc)"
proof -
  let ?i = "text_to_id (textContent (heap doc a))"
  have "\<not> has_id doc (candidate ?i (probe doc ?i 0 (has_id doc (''kelp_'' @ ?i))))"
    by (rule probe_free) (simp add: candidate_def)
  then show ?thesis
    by (simp add: setTextAsID_assigns[OF assms] has_id_def)
qed

lemma setTextAsID_idem: "setTextAsID (setTextAsID doc a) a = setTextAsID doc a"
proof -
  have "settled (setTextAsID doc a) a" by (rule setTextAsID_settled)
  then show ?thesis
    by (auto simp: settled_def setTextAsID_def[of "setTextAsID doc a"] Let_def)
qed

lemma builder_extends:
  "extends (page st) (page (fst (createList cfg hs isFirst st)))"
  using builder_accounted(1)[of hs st isFirst cfg] by (simp add: accounted_def)

text \<open>
  C8. An element that has an identifier keeps it: the assigner returns the document as
  it is, and so does a whole run of the builder for that element, whatever the headings
  and the configuration. An element without identifier whose text gives a non-empty
  identifier string gets an identifier in the \<open>kelp_\<close> namespace that no element
  of the document had before. When the text gives the empty string the assigner changes
  nothing. Assigning twice is assigning once, and no other element is touched.
\<close>

theorem identifier_assignment:
  "(elem_id (heap doc a) \<noteq> [] \<longrightarrow>
      setTextAsID doc a = doc
      \<and> elem_id (heap (page (fst (createList cfg hs isFirst \<lparr>index = i, page = doc\<rparr>))) a)
          = elem_id (heap doc a))
   \<and> (elem_id (heap doc a) = [] \<and> text_to_id (textContent (heap doc a)) \<noteq> [] \<longrightarrow>
        elem_id (heap (setTextAsID doc a) a) \<notin> set (ids_of doc)
        \<and> take 5 (elem_id (heap (setTextAsID doc a) a)) = ''kelp_'')
   \<and> (elem_id (heap doc a) = [] \<and> text_to_id (textContent (heap doc a)) = [] \<longrightarrow>
        setTextAsID doc a = doc)
   \<and> setTextAsID (setTextAsID doc a) a = setTextAsID doc a
   \<and> (b \<noteq> a \<longrightarrow> heap (setTextAsID doc a) b = heap doc b)"
proof -
  have 1: "elem_id (heap (page (fst (createList cfg hs isFirst \<lparr>index = i, page = doc\<rparr>))) a)
          = elem_id (heap doc a)" if "elem_id (heap doc a) \<noteq> []"
    using builder_extends[of "\<lparr>index = i, page = doc\<rparr>" cfg hs isFirst] that
    by (simp add: extends_def settled_def)
  have 2: "take 5 (elem_id (heap (setTextAsID doc a) a)) = ''kelp_''"
    if "elem_id (heap doc a) = []" "text_to_id (textContent (heap doc a)) \<noteq> []"
    using that by (simp add: setTextAsID_def Let_def)
  show ?thesis
    using 1 2 setTextAsID_fresh[of doc a] setTextAsID_idem[of doc a] setTextAsID_other[of b a doc]
    by (auto simp: setTextAsID_def Let_def)
qed

lemma decimal_small: "n < 10 \<Longrightarrow> decimal n = [digit_char n]"
  by (subst decimal.simps) simp

lemma decimal_large: "\<not> n < 10 \<Longrightarrow> decimal n = decimal (n div 10) @ [digit_char (n mod 10)]"
  by (subst decimal.simps) simp

lemmas text_eval = text_to_id_def replace_disallowed_def allowed_def is_space_def is_sep_def
  decimal_small decimal_large digit_char_def

theorem identifier_assignment_witness:
  "elem_id (heap doc_ids 4) \<noteq> [] \<and> setTextAsID doc_ids 4 = doc_ids
   \<and> elem_id (heap doc_ids 0) = [] \<and> text_to_id (textContent (heap doc_ids 0)) \<noteq> []
   \<and> ids_of doc_ids = [[], ''kelp_Intro-a-b'', ''kelp_Intro-a-b_1'', [], ''top'']
   \<and> elem_id (heap (setTextAsID doc_ids 0) 0) = ''kelp_Intro-a-b_2''
   \<and> ''kelp_Intro-a-b_2'' \<notin> set (ids_of doc_ids)
   \<and> elem_id (heap doc_ids 3) = [] \<and> text_to_id (textContent (heap doc_ids 3)) = []
   \<and> setTextAsID doc_ids 3 = doc_ids
   \<and> (1::nat) \<noteq> 0 \<and> heap (setTextAsID doc_ids 0) 1 = heap doc_ids 1"
proof -
  have t: "text_to_id ''Intro: a/b'' = ''Intro-a-b''" "text_to_id [] = []"
    by (simp_all add: text_eval)
  have h: "heap doc_ids 0 = mk_element ''H2'' [] ''Intro: a/b''"
          "heap doc_ids 3 = mk_element ''H2'' [] []"
          "heap doc_ids 4 = mk_element ''H2'' ''top'' ''Top''"
    by (simp_all add: doc_ids_def)
  have i: "ids_of doc_ids = [[], ''kelp_Intro-a-b'', ''kelp_Intro-a-b_1'', [], ''top'']"
    by (simp add: ids_of_def doc_ids_def mk_element_def)
  have n: "elem_id (heap (setTextAsID doc_ids 0) 0) = ''kelp_Intro-a-b_2''"
    by (simp add: setTextAsID_def h t i mk_element_def has_id_def suffixed_def text_eval Let_def)
  show ?thesis
    using identifier_assignment[of doc_ids 4 cfg_nested "[]" True 0 0]
          identifier_assignment[of doc_ids 0 cfg_nested "[]" True 0 1]
          identifier_assignment[of doc_ids 3 cfg_nested "[]" True 0 0]
    by (simp add: h t i n mk_element_def)
qed

section \<open>The ready flag\<close>

text \<open>
  C9. On a component whose \<open>is-ready\<close> attribute is set, \<open>init\<close> renders
  nothing, changes no content and dispatches nothing: for the table of contents and for
  the heading anchors the whole state is returned as it was; for the sub-navigation the
  events dispatched are the same, the component stays ready, and only when
  \<open>is-paused\<close> is set are the two document listeners registered again and the
  \<open>is-paused\<close> attribute removed.
\<close>

theorem ready_flag_gates_init:
  "(hasAttribute (toc_attrs t) ''is-ready'' \<longrightarrow>
      toc_init querySelectorAll (t, doc, fired) = (t, doc, fired))
   \<and> (hasAttribute (ha_attrs a) ''is-ready'' \<longrightarrow>
      anchors_init querySelectorAll text_of (a, doc, fired) = (a, doc, fired))
   \<and> (hasAttribute (sn_attrs w) ''is-ready'' \<longrightarrow>
      subnav_init self has_details w =
        (if hasAttribute (sn_attrs w) ''is-paused''
         then (listen self w)\<lparr>sn_attrs := (sn_attrs w)(''is-paused'' := None)\<rparr>
         else w)
      \<and> sn_fired (subnav_init self has_details w) = sn_fired w
      \<and> hasAttribute (sn_attrs (subnav_init self has_details w)) ''is-ready''
      \<and> \<not> hasAttribute (sn_attrs (subnav_init self has_details w)) ''is-paused'')"
  by (simp add: toc_init_def anchors_init_def subnav_init_def reinit_def listen_def
        hasAttribute_def)

theorem ready_flag_gates_init_witness:
  "hasAttribute (toc_attrs toc_done) ''is-ready''
   \<and> toc_init no_match (toc_done, doc_23432, []) = (toc_done, doc_23432, [])
   \<and> hasAttribute (ha_attrs anchors_done) ''is-ready''
   \<and> anchors_init no_match id (anchors_done, doc_23432, []) = (anchors_done, doc_23432, [])
   \<and> hasAttribute (sn_attrs (subnav_disconnectedCallback 7 (subnav_init 7 True subnav_new))) ''is-ready''
   \<and> hasAttribute (sn_attrs (subnav_disconnectedCallback 7 (subnav_init 7 True subnav_new))) ''is-paused''
   \<and> sn_listeners (subnav_disconnectedCallback 7 (subnav_init 7 True subnav_new)) = []
   \<and> sn_listeners (subnav_init 7 True (subnav_disconnectedCallback 7 (subnav_init 7 True subnav_new)))
       = [(''click'', 7), (''keydown'', 7)]
   \<and> sn_fired (subnav_init 7 True (subnav_disconnectedCallback 7 (subnav_init 7 True subnav_new)))
       = [emit ''subnav'' ''ready'' None False]
   \<and> \<not> hasAttribute
         (sn_attrs (subnav_init 7 True (subnav_disconnectedCallback 7 (subnav_init 7 True subnav_new))))
         ''is-paused''"
proof -
  have a: "subnav_init 7 True subnav_new =
      \<lparr>sn_attrs = [''is-ready'' \<mapsto> []], sn_listeners = [(''click'', 7), (''keydown'', 7)],
       sn_fired = [emit ''subnav'' ''ready'' None False]\<rparr>"
    by (simp add: subnav_init_def reinit_def hasAttribute_def subnav_new_def listen_def
          addEventListener_def)
  have b: "subnav_disconnectedCallback 7 (subnav_init 7 True subnav_new) =
      \<lparr>sn_attrs = [''is-ready'' \<mapsto> [], ''is-paused'' \<mapsto> []], sn_listeners = [],
       sn_fired = [emit ''subnav'' ''ready'' None False]\<rparr>"
    by (simp add: a subnav_disconnectedCallback_def removeEventListener_def)
  show ?thesis
    using ready_flag_gates_init[of toc_done no_match doc_23432 "[]" anchors_done id
            "subnav_disconnectedCallback 7 (subnav_init 7 True subnav_new)" 7 True]
    by (simp add: b hasAttribute_def toc_done_def anchors_done_def listen_def addEventListener_def)
qed

section \<open>No matching headings\<close>

text \<open>
  C6 as stated fails: on a component that is already ready, \<open>init\<close> returns before
  it looks for headings, so with no matching heading it dispatches no debug event at all.
\<close>

theorem no_headings_counterexample:
  "no_match (toc_selector (toc_fields toc_done)) doc_plain = []
   \<and> toc_init no_match (toc_done, doc_plain, []) = (toc_done, doc_plain, [])
   \<and> length (snd (snd (toc_init no_match (toc_done, doc_plain, [])))) \<noteq> 1"
  by (simp add: toc_init_def hasAttribute_def toc_done_def no_match_def)

text \<open>
  C6, amended. When \<open>init\<close> runs on a table of contents whose \<open>is-ready\<close>
  attribute is not set and no heading matches, the content, the attributes and the
  document stay as they were (only the private fields are filled in), exactly one event
  is dispatched, the debug event with the reason ``No matching headings were found'',
  no ready event is dispatched and \<open>is-ready\<close> is not set.
\<close>

theorem no_headings_init:
  assumes "\<not> hasAttribute (toc_attrs t) ''is-ready''"
    and "querySelectorAll (toc_selector (toc_settings (toc_attrs t))) doc = []"
  shows "toc_init querySelectorAll (t, doc, fired) =
           (t\<lparr>toc_fields := toc_settings (toc_attrs t), toc_index := 0\<rparr>, doc,
            fired @ [debug ''No matching headings were found''])
       \<and> toc_innerHTML (fst (toc_init querySelectorAll (t, doc, fired))) = toc_innerHTML t
       \<and> toc_attrs (fst (toc_init querySelectorAll (t, doc, fired))) = toc_attrs t
       \<and> \<not> hasAttribute (toc_attrs (fst (toc_init querySelectorAll (t, doc, fired)))) ''is-ready''
       \<and> ev_type (debug ''No matching headings were found'') = ''kelp:debug''
       \<and> ev_type (debug ''No matching headings were found'') \<noteq> ev_type (emit ''toc'' ''ready'' None False)"
  using assms
  by (simp add: toc_init_def toc_render_def Let_def debug_def emit_def)

theorem no_headings_init_witness:
  "\<not> hasAttribute (toc_attrs toc_new) ''is-ready''
   \<and> no_match (toc_selector (toc_settings (toc_attrs toc_new))) doc_plain = []
   \<and> toc_init no_match (toc_new, doc_plain, []) =
       (toc_new\<lparr>toc_fields := cfg_captioned, toc_index := 0\<rparr>, doc_plain,
        [debug ''No matching headings were found''])
   \<and> toc_innerHTML (fst (toc_init no_match (toc_new, doc_plain, []))) = ''<p>Loading</p>''"
proof -
  have s: "toc_settings (toc_attrs toc_new) = cfg_captioned"
    by (simp add: toc_settings_def toc_new_def cfg_captioned_def hasAttribute_def attr_or_def)
  have n: "\<not> hasAttribute (toc_attrs toc_new) ''is-ready''"
    by (simp add: toc_new_def hasAttribute_def)
  have i: "toc_innerHTML toc_new = ''<p>Loading</p>''" by (simp add: toc_new_def)
  show ?thesis
    using no_headings_init[of toc_new no_match doc_plain "[]"] n
    by (simp add: s no_match_def i)
qed

section \<open>Nesting depth\<close>

lemma depths_of_append [simp]: "depths_of d (xs @ ys) = depths_of d xs @ depths_of d ys"
  by (simp add: depths_of_def)

lemma depths_of_Nil [simp]: "depths_of d [] = []"
  by (simp add: depths_of_def)

lemma walk_wrap_list: "map fst (walk d (wrap_list cfg False l)) = depths_of d l"
  by (simp add: wrap_list_def Let_def depths_of_def)

lemma walk_wrap_list_top: "map fst (walk d (wrap_list cfg True l)) = depths_of d l"
  by (simp add: wrap_list_def Let_def depths_of_def)

lemma rest_Nil [simp]: "rest n A [] = []"
  by (cases A) simp_all

lemma levels_extends: "extends d d' \<Longrightarrow> levels_of d' hs = levels_of d hs"
  by (simp add: levels_of_def extends_def)

lemma levels_visit [simp]: "levels_of (page (visit hs st)) hs' = levels_of (page st) hs'"
  by (simp add: levels_of_def visit_def)

lemma levels_createList [simp]:
  "levels_of (page (fst (createList cfg hs isFirst st))) hs' = levels_of (page st) hs'"
  by (rule levels_extends[OF builder_extends])

lemma levels_after [simp]: "levels_of (page (after cfg hs st)) hs' = levels_of (page st) hs'"
  by (simp add: after_def)

lemma level_at_levels: "index st < length hs \<Longrightarrow> level_at hs st = levels_of (page st) hs ! index st"
  by (simp add: level_at_def levels_of_def)

lemma next_level_levels:
  "next_level doc hs i cl =
     (if i + 1 < length hs then effective (levels_of doc hs ! (i + 1)) cl else cl)"
  by (simp add: next_level_def levels_of_def effective_def Let_def)

lemma length_levels [simp]: "length (levels_of doc hs) = length hs"
  by (simp add: levels_of_def)

lemma drop_levels:
  "i < length hs \<Longrightarrow>
   drop i (levels_of doc hs) = levels_of doc hs ! i # drop (i + 1) (levels_of doc hs)"
  by (simp add: Cons_nth_drop_Suc)

lemma drop_levels_end: "length hs \<le> i \<Longrightarrow> drop i (levels_of doc hs) = []"
  by simp

lemma place_resume:
  "\<not> (n \<and> str_gt (effective l c) c) \<Longrightarrow> place n c A (l # ls) = resume n c A (l # ls)"
  by auto

lemma place_resume_any:
  "(\<And>l ls'. ls = l # ls' \<Longrightarrow> \<not> (n \<and> str_gt (effective l c) c)) \<Longrightarrow>
   place n c A ls = resume n c A ls"
  by (cases ls) (simp_all add: place_resume del: place.simps(2))

lemma resume_stay:
  "A = [] \<or> \<not> str_lt (effective l c) c \<Longrightarrow>
   resume n c A (l # ls) = (length A + 1) # place n l A ls"
  by (cases A) auto

lemma resume_pop:
  "str_lt (effective l c) c \<Longrightarrow> resume n c (c' # A) (l # ls) = resume n c' A (l # ls)"
  by simp

lemma opens_levels:
  "index st < length hs \<Longrightarrow>
   opens cfg hs (visit hs st) =
     (nested cfg \<and> index st + 1 < length hs
      \<and> str_gt (effective (levels_of (page st) hs ! (index st + 1)) (levels_of (page st) hs ! index st))
               (levels_of (page st) hs ! index st))"
  by (auto simp: opens_def next_level_levels level_at_levels str_gt_def)

lemma closes_levels:
  "closes isFirst hs st' cl =
     (\<not> isFirst \<and> index st' + 1 < length hs
      \<and> str_lt (effective (levels_of (page st') hs ! (index st' + 1)) cl) cl)"
  by (auto simp: closes_def next_level_levels)

lemma refines_loop:
  assumes IH1: "index st < length hs \<Longrightarrow> opens cfg hs (visit hs st) \<Longrightarrow>
                refines cfg hs False ((visit hs st)\<lparr>index := index (visit hs st) + 1\<rparr>) []"
    and IH2: "index st < length hs \<Longrightarrow> \<not> closes isFirst hs (after cfg hs st) (level_at hs st) \<Longrightarrow>
                refines cfg hs isFirst ((after cfg hs st)\<lparr>index := index (after cfg hs st) + 1\<rparr>)
                  (list @ [item cfg hs st])"
  shows "refines cfg hs isFirst st list"
  unfolding refines_def
proof (intro allI impI)
  fix A :: "string list"
  assume fA: "isFirst \<longleftrightarrow> A = []" and lt: "index st < length hs"
  define L where "L = levels_of (page st) hs"
  define n where "n = nested cfg"
  define i where "i = index st"
  define c where "c = L ! i"
  define d where "d = length A + 1"
  define S where "S = after cfg hs st"
  define k where "k = index S"
  define it where "it = item cfg hs st"
  have LS: "levels_of (page S) hs = L" by (simp add: S_def L_def)
  have cl: "level_at hs st = c" using lt by (simp add: level_at_levels c_def L_def i_def)
  have ik: "i \<le> k" using after_mono[of st cfg hs] by (simp add: i_def k_def S_def)
  \<comment> \<open>the item and what follows it\<close>
  have item: "map fst (walk_li d it) @ resume n c A (drop (k + 1) L) = d # place n c A (drop (i + 1) L)"
  proof (cases "opens cfg hs (visit hs st)")
    case True
    then have o: "n" "i + 1 < length hs" "str_gt (effective (L ! (i + 1)) c) c"
      using lt by (simp_all add: opens_levels n_def L_def c_def i_def)
    have Sc: "S = fst (createList cfg hs False (visit hs st))"
      using True by (simp add: S_def after_def)
    have Sl: "S = fst (createList_loop cfg hs False ((visit hs st)\<lparr>index := i + 1\<rparr>) [])"
      by (simp add: Sc createList_unfold i_def)
    have itd: "it = Entry (elem_id (heap (page (visit hs st)) (hs ! index st)))
                  (textContent (heap (page st) (hs ! index st)))
                  (Some (snd (createList cfg hs False (visit hs st))))"
      using True by (simp add: it_def item_def)
    define rc where "rc = createList_loop cfg hs False ((visit hs st)\<lparr>index := i + 1\<rparr>) []"
    have R1: "refines cfg hs False ((visit hs st)\<lparr>index := i + 1\<rparr>) []"
      using IH1[OF lt True] by (simp add: i_def)
    have "\<exists>D. depths_of (length (c # A) + 1) (snd rc) = depths_of (length (c # A) + 1) [] @ D
            \<and> D @ rest (nested cfg) (c # A)
                    (drop (index (fst rc) + 1)
                       (levels_of (page ((visit hs st)\<lparr>index := i + 1\<rparr>)) hs)) =
                (length (c # A) + 1) #
                  place (nested cfg)
                    (levels_of (page ((visit hs st)\<lparr>index := i + 1\<rparr>)) hs
                       ! index ((visit hs st)\<lparr>index := i + 1\<rparr>)) (c # A)
                    (drop (index ((visit hs st)\<lparr>index := i + 1\<rparr>) + 1)
                       (levels_of (page ((visit hs st)\<lparr>index := i + 1\<rparr>)) hs))"
      unfolding rc_def
      by (rule R1[unfolded refines_def, rule_format]) (use o(2) in simp_all)
    then obtain D where D: "depths_of (length (c # A) + 1) (snd rc) = D"
        and D2: "D @ rest n (c # A) (drop (k + 1) L) =
                 (length (c # A) + 1) # place n (L ! (i + 1)) (c # A) (drop (i + 1 + 1) L)"
      by (auto simp: L_def n_def k_def Sl rc_def simp del: rest.simps place.simps resume.simps)
    have w: "map fst (walk_li d it) = d # D"
      using D by (simp add: itd createList_unfold walk_wrap_list d_def i_def rc_def)
    have dr: "drop (Suc i) L = L ! Suc i # drop (Suc (Suc i)) L"
      using o(2) drop_levels[of "i + 1" hs "page st"] by (simp add: L_def)
    have "place n c A (drop (i + 1) L) = (length A + 2) # place n (L ! (i + 1)) (c # A) (drop (i + 1 + 1) L)"
      using o by (simp add: dr del: resume.simps)
    with D2 w show ?thesis by (simp add: d_def del: place.simps resume.simps)
  next
    case False
    then have S: "S = visit hs st" by (simp add: S_def after_def)
    then have ki: "k = i" by (simp add: k_def i_def)
    have w: "map fst (walk_li d it) = [d]"
      using False by (simp add: it_def item_def)
    have "place n c A (drop (i + 1) L) = resume n c A (drop (i + 1) L)"
    proof (rule place_resume_any)
      fix l ls'
      assume e: "drop (i + 1) L = l # ls'"
      then have "i + 1 < length hs" by (cases "i + 1 < length hs") (simp_all add: L_def)
      moreover from this e have "l = L ! (i + 1)"
        using drop_levels[of "i + 1" hs "page st"] by (simp add: L_def)
      ultimately show "\<not> (n \<and> str_gt (effective l c) c)"
        using False lt by (simp add: opens_levels n_def L_def c_def i_def)
    qed
    with w show ?thesis by (simp add: ki del: place.simps resume.simps)
  qed
  show "\<exists>D. depths_of (length A + 1) (snd (createList_loop cfg hs isFirst st list)) =
                depths_of (length A + 1) list @ D
            \<and> D @ rest (nested cfg) A
                    (drop (index (fst (createList_loop cfg hs isFirst st list)) + 1)
                       (levels_of (page st) hs)) =
                (length A + 1) # place (nested cfg) (levels_of (page st) hs ! index st) A
                    (drop (index st + 1) (levels_of (page st) hs))"
  proof (cases "closes isFirst hs S c")
    case True
    then have c1: "\<not> isFirst" "k + 1 < length hs" "str_lt (effective (L ! (k + 1)) c) c"
      by (simp_all add: closes_levels LS k_def)
    from c1(1) fA obtain c' A' where A: "A = c' # A'" by (cases A) auto
    have res: "createList_loop cfg hs isFirst st list = (S, list @ [it])"
      using True by (simp add: loop_step[OF lt] S_def it_def cl)
    have dr: "drop (Suc k) L = L ! Suc k # drop (Suc (Suc k)) L"
      using c1(2) drop_levels[of "k + 1" hs "page st"] by (simp add: L_def)
    have "rest n A (drop (k + 1) L) = resume n c A (drop (k + 1) L)"
      using c1(3) by (simp add: A dr del: resume.simps(3) add: resume_pop)
    with item have "map fst (walk_li d it) @ rest n A (drop (k + 1) L) = d # place n c A (drop (i + 1) L)"
      by simp
    then show ?thesis
      by (intro exI[of _ "map fst (walk_li d it)"])
         (simp add: res depths_of_def d_def k_def L_def n_def c_def i_def)
  next
    case False
    define r where "r = createList_loop cfg hs isFirst (S\<lparr>index := k + 1\<rparr>) (list @ [it])"
    have res: "createList_loop cfg hs isFirst st list = r"
      using False by (simp add: loop_step[OF lt] S_def it_def cl r_def k_def)
    show ?thesis
    proof (cases "k + 1 < length hs")
      case fin: False
      then have r: "r = (S\<lparr>index := k + 1\<rparr>, list @ [it])"
        by (simp add: r_def loop_done)
      have "drop (k + 1) L = []" using fin by (simp add: L_def)
      with item have "map fst (walk_li d it) = d # place n c A (drop (i + 1) L)"
        by (simp del: place.simps)
      moreover have "drop (k + 1 + 1) L = []" using fin by (simp add: L_def)
      ultimately show ?thesis
        by (intro exI[of _ "map fst (walk_li d it)"])
           (simp add: res r depths_of_def d_def L_def n_def c_def i_def del: place.simps)
    next
      case cont: True
      have dr: "drop (Suc k) L = L ! Suc k # drop (Suc (Suc k)) L"
        using cont drop_levels[of "k + 1" hs "page st"] by (simp add: L_def)
      have stay: "A = [] \<or> \<not> str_lt (effective (L ! (k + 1)) c) c"
        using False cont fA by (auto simp: closes_levels LS k_def)
      have rs: "resume n c A (drop (k + 1) L) = d # place n (L ! (k + 1)) A (drop (k + 1 + 1) L)"
        using resume_stay[OF stay, of n "drop (Suc (Suc k)) L"]
        by (simp add: d_def dr del: place.simps resume.simps)
      from IH2[OF lt] False
      have "refines cfg hs isFirst (S\<lparr>index := k + 1\<rparr>) (list @ [it])"
        by (simp add: S_def it_def cl k_def)
      then obtain D where D: "depths_of d (snd r) = depths_of d (list @ [it]) @ D"
        and D2: "D @ rest n A (drop (index (fst r) + 1) L) =
                 d # place n (L ! (k + 1)) A (drop (k + 1 + 1) L)"
        using fA cont unfolding refines_def
        by (auto simp: r_def LS d_def n_def simp del: rest.simps place.simps resume.simps)
      have "(map fst (walk_li d it) @ D) @ rest n A (drop (index (fst r) + 1) L) =
            d # place n c A (drop (i + 1) L)"
        using item rs D2 by (simp del: place.simps resume.simps)
      moreover have "depths_of d (snd r) = depths_of d list @ map fst (walk_li d it) @ D"
        using D by (simp add: depths_of_def)
      ultimately show ?thesis
        by (intro exI[of _ "map fst (walk_li d it) @ D"])
           (simp add: res d_def L_def n_def c_def i_def del: place.simps resume.simps)
    qed
  qed
qed

lemma refines_all: "refines cfg hs isFirst st list"
proof (induction cfg hs isFirst st list
    rule: builder_induct(2)[where P = "\<lambda>cfg hs isFirst st.
      refines cfg hs isFirst (st\<lparr>index := (if isFirst then 0 else index st + 1)\<rparr>) []",
      case_names createList loop])
  case (createList cfg hs isFirst st)
  then show ?case .
next
  case (loop cfg hs isFirst st list)
  show ?case
  proof (rule refines_loop)
    assume "index st < length hs" and "opens cfg hs (visit hs st)"
    from loop(1)[OF this]
    show "refines cfg hs False ((visit hs st)\<lparr>index := index (visit hs st) + 1\<rparr>) []"
      by simp
  next
    assume "index st < length hs" and "\<not> closes isFirst hs (after cfg hs st) (level_at hs st)"
    from loop(2)[OF this]
    show "refines cfg hs isFirst ((after cfg hs st)\<lparr>index := index (after cfg hs st) + 1\<rparr>)
            (list @ [item cfg hs st])" .
  qed
qed

lemma top_level_depths:
  "map fst (walk 1 (snd (createList cfg hs True st))) =
     stack_depths (nested cfg) (levels_of (page st) hs)"
proof (cases hs)
  case Nil
  then show ?thesis
    by (simp add: createList_unfold walk_wrap_list_top loop_done levels_of_def)
next
  case (Cons h hs')
  let ?st = "st\<lparr>index := 0\<rparr>"
  let ?L = "levels_of (page st) hs"
  have lt: "index ?st < length hs" using Cons by simp
  from refines_all[of cfg hs True ?st "[]", unfolded refines_def, rule_format, of "[]"] lt
  obtain D where D: "depths_of 1 (snd (createList_loop cfg hs True ?st [])) = D"
    and D2: "D = 1 # place (nested cfg) (?L ! 0) [] (drop 1 ?L)"
    by (auto simp del: place.simps)
  have "?L = ?L ! 0 # drop 1 ?L"
    using Cons by (simp add: levels_of_def)
  then have "stack_depths (nested cfg) ?L = 1 # place (nested cfg) (?L ! 0) [] (drop 1 ?L)"
    by (metis stack_depths.simps(2))
  with D D2 show ?thesis
    by (simp add: createList_unfold walk_wrap_list_top)
qed

lemma inner_list_243:
  "createList cfg_nested [0, 1, 2] False \<lparr>index = 0, page = doc_243\<rparr> =
     (\<lparr>index = 1, page = doc_243\<rparr>, Markup None ''ul'' None [Entry ''b'' ''B'' None])"
  by (subst createList_unfold) (simp add: example_eval doc_243_def cfg_nested_def)

text \<open>
  C2 as stated fails. For headings of the levels 2, 4, 3 the builder closes the list of
  the level-4 heading and goes on in the top-level list, since the top-level call never
  breaks: the level-3 heading becomes a top-level sibling of the level-2 heading, at
  depth 1. By the rule of the specification its nearest ancestor is the level-2 heading
  and its depth is 2.
\<close>

theorem depth_rule_counterexample:
  "snd (createList cfg_nested [0, 1, 2] True \<lparr>index = 0, page = doc_243\<rparr>) =
     Markup None ''ul'' None
       [Entry ''a'' ''A'' (Some (Markup None ''ul'' None [Entry ''b'' ''B'' None])),
        Entry ''c'' ''C'' None]
   \<and> map fst (walk 1 (snd (createList cfg_nested [0, 1, 2] True \<lparr>index = 0, page = doc_243\<rparr>)))
       = [1, 2, 1]
   \<and> levels_of doc_243 [0, 1, 2] = [''2'', ''4'', ''3'']
   \<and> spec_depths (levels_of doc_243 [0, 1, 2]) = [1, 2, 2]"
proof -
  have e: "snd (createList cfg_nested [0, 1, 2] True \<lparr>index = 0, page = doc_243\<rparr>) =
     Markup None ''ul'' None
       [Entry ''a'' ''A'' (Some (Markup None ''ul'' None [Entry ''b'' ''B'' None])),
        Entry ''c'' ''C'' None]"
    using inner_list_243
    by (subst createList_unfold) (simp add: example_eval doc_243_def cfg_nested_def)
  have l: "levels_of doc_243 [0, 1, 2] = [''2'', ''4'', ''3'']"
    by (simp add: levels_of_def doc_243_def mk_element_def)
  show ?thesis unfolding e l by (simp add: spec_depths_def)
qed

text \<open>
  C2, amended. The top-level call lists every heading once, at one depth, and the depths
  are those that the stack of open levels gives: the first heading has depth 1; a heading
  of strictly greater level than the heading before it lies one level deeper; any other
  heading closes, from the innermost list outward, the nested lists whose latest heading
  has a strictly greater level, and is a sibling in the list it reaches, the top-level
  list at the latest.
\<close>

theorem depth_by_open_levels:
  "map fst (walk 1 (snd (createList cfg hs True st))) =
     stack_depths (nested cfg) (levels_of (page st) hs)
   \<and> map snd (walk 1 (snd (createList cfg hs True st))) =
       map (\<lambda>a. (elem_id (heap (page (fst (createList cfg hs True st))) a),
                  textContent (heap (page st) a))) hs"
  using top_level_depths[of cfg hs st] top_level_entries[of cfg hs st]
  by (simp add: walk_entries)

end
